theory Spec2Isabelle
  imports Main
begin

section \<open>Python values\<close>

text \<open>
  A Python \<open>str\<close> is a list of Unicode code points and a \<open>bytes\<close> object a list of
  byte values; both are lists of naturals.  \<open>U\<close> writes an ASCII literal of the source.
\<close>

type_synonym pystr = "nat list"

type_synonym bytes = "nat list"

type_synonym node = pystr

type_synonym addr = nat

definition U :: "string \<Rightarrow> nat list" where
  "U s = map of_char s"

text \<open>
  The values that travel in the JSON payloads: the scalars and lists.  Nested objects
  and floating point numbers are never inspected by the orchestrator and are left out.
\<close>

datatype pyval = VNone | VBool bool | VInt int | VStr pystr | VList "pyval list"

type_synonym dict = "(pystr \<times> pyval) list"

datatype error =
    KeyError | TypeError | AssertionError
  | UnicodeDecodeError | UnicodeEncodeError
  | TransportError
  | OtherResponseNotSupported
  | ReError | OverflowError

text \<open>Python's \<open>==\<close> on these values: \<open>True == 1\<close> and \<open>False == 0\<close>.\<close>

fun py_eq :: "pyval \<Rightarrow> pyval \<Rightarrow> bool" and py_eq_list :: "pyval list \<Rightarrow> pyval list \<Rightarrow> bool" where
  "py_eq VNone VNone = True"
| "py_eq (VBool a) (VBool b) = (a = b)"
| "py_eq (VBool a) (VInt j) = ((if a then 1 else 0) = j)"
| "py_eq (VInt i) (VBool b) = (i = (if b then 1 else 0))"
| "py_eq (VInt i) (VInt j) = (i = j)"
| "py_eq (VStr s) (VStr t) = (s = t)"
| "py_eq (VList xs) (VList ys) = py_eq_list xs ys"
| "py_eq _ _ = False"
| "py_eq_list [] [] = True"
| "py_eq_list (x # xs) (y # ys) = (py_eq x y \<and> py_eq_list xs ys)"
| "py_eq_list _ _ = False"

text \<open>\<open>d[k] = v\<close>: an existing key keeps its position, a new key goes last.\<close>

fun dict_set :: "pystr \<Rightarrow> pyval \<Rightarrow> dict \<Rightarrow> dict" where
  "dict_set k v [] = [(k, v)]"
| "dict_set k v ((k', v') # r) = (if k' = k then (k, v) # r else (k', v') # dict_set k v r)"

text \<open>\<open>d.get(k)\<close>, which is \<open>None\<close> for a missing key.\<close>

definition dict_get :: "dict \<Rightarrow> pystr \<Rightarrow> pyval" where
  "dict_get d k = (case map_of d k of None \<Rightarrow> VNone | Some v \<Rightarrow> v)"

text \<open>\<open>a.update(b)\<close> for two dicts.\<close>

fun dict_update :: "dict \<Rightarrow> dict \<Rightarrow> dict" where
  "dict_update a [] = a"
| "dict_update a ((k, v) # r) = dict_update (dict_set k v a) r"

text \<open>Iterating a value with \<open>for x in v\<close>: a list gives its elements, a \<open>str\<close> its
  characters, anything else is not iterable.\<close>

fun py_iter :: "pyval \<Rightarrow> error + pyval list" where
  "py_iter (VList xs) = Inr xs"
| "py_iter (VStr s) = Inr (map (\<lambda>c. VStr [c]) s)"
| "py_iter _ = Inl TypeError"

section \<open>The graph\<close>

text \<open>
  Modelled from the spec: the class \<open>DAG\<close> (module \<open>dag\<close>) is not among the sources.
  The spec's data model: a mapping from node name to the ordered set of its direct
  successors, with the queries \<open>downstream\<close> (direct successors, in insertion order),
  \<open>predecessors\<close>, \<open>ind_nodes\<close> (nodes with zero predecessors), \<open>all_downstreams\<close>
  (transitive), \<open>delete_edge\<close> and \<open>delete_node_if_exists\<close> (also removes dangling
  edges).  The spec says nothing about a node that is not a key; the model gives it no
  successors.  \<open>downstream\<close> hands out a list of its own (the caller's local view).
\<close>

type_synonym graph = "(node \<times> node list) list"

definition downstream :: "graph \<Rightarrow> node \<Rightarrow> node list" where
  "downstream g n = (case map_of g n of None \<Rightarrow> [] | Some ds \<Rightarrow> ds)"

definition predecessors :: "graph \<Rightarrow> node \<Rightarrow> node list" where
  "predecessors g n = map fst (filter (\<lambda>kd. n \<in> set (snd kd)) g)"

definition ind_nodes :: "graph \<Rightarrow> node list" where
  "ind_nodes g = filter (\<lambda>k. predecessors g k = []) (map fst g)"

definition delete_edge :: "graph \<Rightarrow> node \<Rightarrow> node \<Rightarrow> graph" where
  "delete_edge g u v = map (\<lambda>kd. if fst kd = u then (fst kd, removeAll v (snd kd)) else kd) g"

definition delete_node_if_exists :: "graph \<Rightarrow> node \<Rightarrow> graph" where
  "delete_node_if_exists g n =
     map (\<lambda>kd. (fst kd, removeAll n (snd kd))) (filter (\<lambda>kd. fst kd \<noteq> n) g)"

fun downstreams_closure :: "graph \<Rightarrow> nat \<Rightarrow> node list \<Rightarrow> node list" where
  "downstreams_closure g 0 seen = seen"
| "downstreams_closure g (Suc k) seen =
     downstreams_closure g k (remdups (seen @ concat (map (downstream g) seen)))"

definition all_downstreams :: "graph \<Rightarrow> node \<Rightarrow> node list" where
  "all_downstreams g n = downstreams_closure g (length g) (downstream g n)"

text \<open>The invariants of the spec's data model that a list representation does not give
  by itself: node names are unique, and successors form a set.\<close>

definition graph_ok :: "graph \<Rightarrow> bool" where
  "graph_ok g = (distinct (map fst g) \<and> list_all (\<lambda>kd. distinct (snd kd)) g)"

section \<open>Services, responses and the environment\<close>

text \<open>
  Modelled from the spec: the enumeration \<open>ServiceType\<close> (module \<open>constants\<close>) is not
  among the sources; the spec lists these members.  The orchestrator only asks whether
  a node is \<open>LLM\<close> or \<open>LVM\<close>.
\<close>

datatype service_type =
  EMBEDDING | RETRIEVER | RERANK | LLM | LVM | GUARDRAIL | ASR | TTS | OTHER

record service =
  service_type :: service_type
  api_key_value :: "pystr option"

text \<open>Truthiness of \<open>access_token\<close>: neither \<open>None\<close> nor the empty string.\<close>

definition truthy_token :: "pystr option \<Rightarrow> bool" where
  "truthy_token t = (case t of None \<Rightarrow> False | Some s \<Rightarrow> s \<noteq> [])"

text \<open>\<open>LLMParams\<close>: the attribute \<open>stream\<close> and the mapping that \<open>.dict()\<close> returns.\<close>

record llm_parameters =
  stream :: bool
  as_dict :: dict

text \<open>
  The reply of \<open>requests.post(..., stream=True)\<close>: its truth value (\<open>Response.ok\<close>),
  the chunks that \<open>iter_content\<close> yields, and whether the iteration then raises
  instead of ending.
\<close>

record upstream =
  ok :: bool
  chunks :: "bytes list"
  broken :: bool

text \<open>
  A \<open>StreamingResponse\<close> wraps a generator that has not run yet: either
  \<open>fake_stream(text)\<close> or the closure \<open>generate()\<close> with the variables it
  captured (the upstream reply and the list \<open>downstream\<close>).
\<close>

datatype streaming = FakeStream pyval | Generate upstream "node list"

datatype response = Structured dict | Audio bytes | Streaming streaming

datatype reply = JsonReply dict | AudioReply bytes

text \<open>
  Everything outside the process: the registered services, the three kinds of HTTP
  call (the unary call of \<open>execute\<close> with the body read, the streaming call of
  \<open>execute\<close>, the per-segment call of \<open>generate\<close> with \<open>res.json()\<close>), and
  Python's \<open>re.findall\<close> reduced to what the caller tests: whether a match was found,
  or the exception that the call raises (\<open>ReError\<close> is \<open>re.error\<close>, the exception
  of a pattern that does not compile; \<open>a{4294967296}\<close> raises \<open>OverflowError\<close>).
\<close>

record world =
  services :: "node \<Rightarrow> service option"
  http_post :: "node \<Rightarrow> dict \<Rightarrow> error + reply"
  http_post_stream :: "node \<Rightarrow> dict \<Rightarrow> error + upstream"
  http_post_segment :: "node \<Rightarrow> pystr \<Rightarrow> error + dict"
  re_findall :: "pystr \<Rightarrow> pystr \<Rightarrow> error + bool"

datatype 's outcome = Done 's | Raised error 's

fun state_of :: "'s outcome \<Rightarrow> 's" where
  "state_of (Done s) = s"
| "state_of (Raised e s) = s"

fun raised :: "'s outcome \<Rightarrow> error option" where
  "raised (Done s) = None"
| "raised (Raised e s) = Some e"

section \<open>The node executor\<close>

text \<open>Lines 250-253 of \<open>execute\<close>: the overlay of the parameters onto \<open>inputs\<close>.\<close>

fun overlay :: "dict \<Rightarrow> dict \<Rightarrow> dict" where
  "overlay [] inputs = inputs"
| "overlay ((field, value) # r) inputs =
     overlay r (if \<not> py_eq (dict_get inputs field) value
                then dict_set field value inputs else inputs)"

type_synonym heap = "addr \<Rightarrow> dict"

text \<open>
  \<open>execute\<close> up to its return.  \<open>inputs\<close> is a reference into the heap of
  dictionaries, and the overlay writes through it.  The alignment hooks are the
  identities of the class.  The result is the heap and what the task yields when it is
  awaited: the pair \<open>(response, node)\<close> or the exception.
\<close>

definition execute ::
  "world \<Rightarrow> llm_parameters \<Rightarrow> graph \<Rightarrow> heap \<Rightarrow> node \<Rightarrow> addr \<Rightarrow> heap \<times> (error + response \<times> node)" where
  "execute w lp runtime_graph h cur_node inputs =
     (case services w cur_node of
        None \<Rightarrow> (h, Inl KeyError)
      | Some svc \<Rightarrow>
          let is_llm_vlm = (service_type svc = LLM \<or> service_type svc = LVM);
              h' = (if is_llm_vlm then h(inputs := overlay (as_dict lp) (h inputs)) else h);
              access_token = api_key_value svc
          in if truthy_token access_token \<and> map_of (h' inputs) (U ''model'') = None
             then (h', Inl KeyError)
             else if is_llm_vlm \<and> stream lp then
               (case http_post_stream w cur_node (h' inputs) of
                  Inl e \<Rightarrow> (h', Inl e)
                | Inr resp \<Rightarrow>
                    let ds = downstream runtime_graph cur_node in
                    if ds = [] then (h', Inr (Streaming (Generate resp ds), cur_node))
                    else if length ds \<noteq> 1 then (h', Inl AssertionError)
                    else (case services w (hd ds) of
                            None \<Rightarrow> (h', Inl KeyError)
                          | Some _ \<Rightarrow> (h', Inr (Streaming (Generate resp ds), hd ds))))
             else
               (case http_post w cur_node (h' inputs) of
                  Inl e \<Rightarrow> (h', Inl e)
                | Inr (AudioReply audio_data) \<Rightarrow> (h', Inr (Audio audio_data, cur_node))
                | Inr (JsonReply data) \<Rightarrow> (h', Inr (Structured data, cur_node))))"

section \<open>The schedule engine\<close>

datatype event = Dispatched node | Recorded node

text \<open>
  The state of one call of \<open>schedule\<close>.  \<open>pending\<close> is split into the tasks that
  were created but have not run yet and the tasks that ran (each with what awaiting it
  yields).  \<open>trace\<close> records, in order, every \<open>create_task(self.execute(...))\<close> and
  every assignment \<open>result_dict[node] = response\<close>; \<open>log\<close> the calls of
  \<open>logger.error\<close>.
\<close>

record sched_state =
  result_dict :: "node \<Rightarrow> response option"
  runtime_graph :: graph
  created :: "(node \<times> addr) list"
  running :: "(node \<times> (error + response \<times> node)) list"
  heap :: heap
  next_addr :: addr
  trace :: "event list"
  log :: "string list"

text \<open>\<open>process_outputs\<close>: \<open>dict.update\<close> accepts a mapping, or an iterable of pairs
  (empty \<open>bytes\<close> is one, with no pairs); a \<open>StreamingResponse\<close> is neither.\<close>

fun process_outputs :: "node list \<Rightarrow> (node \<Rightarrow> response option) \<Rightarrow> dict \<Rightarrow> error + dict" where
  "process_outputs [] rd all_outputs = Inr all_outputs"
| "process_outputs (prev_node # r) rd all_outputs =
     (case rd prev_node of
        None \<Rightarrow> Inl KeyError
      | Some (Structured d) \<Rightarrow> process_outputs r rd (dict_update all_outputs d)
      | Some (Audio b) \<Rightarrow> (if b = [] then process_outputs r rd all_outputs else Inl TypeError)
      | Some (Streaming _) \<Rightarrow> Inl TypeError)"

text \<open>
  Lines 160-168: \<open>for downstream in reversed(downstreams)\<close>, with the removals the
  body makes from the list it iterates.  The reverse iterator holds an index, visits
  \<open>downstreams[i]\<close> when \<open>i\<close> is still in range and stops for good otherwise;
  \<open>Suc i\<close> positions are left to visit.  \<open>re.error\<close> is caught inside the loop
  (line 167); any other exception of \<open>re.findall\<close> and the \<open>TypeError\<close> of a
  pattern that is no string are not.
\<close>

fun prune_downstreams ::
  "world \<Rightarrow> pyval \<Rightarrow> node \<Rightarrow> nat \<Rightarrow> graph \<times> node list \<times> string list
     \<Rightarrow> (graph \<times> node list \<times> string list) outcome" where
  "prune_downstreams w black_node n 0 st = Done st"
| "prune_downstreams w black_node n (Suc i) (g, downstreams, lg) =
     (if i < length downstreams then
        (let d = downstreams ! i in
         case black_node of
           VStr p \<Rightarrow>
             (case re_findall w p d of
                Inl e \<Rightarrow>
                  if e = ReError then
                    prune_downstreams w black_node n i
                      (g, downstreams, lg @ [''Pattern invalid! Operation cancelled.''])
                  else Raised e (g, downstreams, lg)
              | Inr False \<Rightarrow> prune_downstreams w black_node n i (g, downstreams, lg)
              | Inr True \<Rightarrow> prune_downstreams w black_node n i
                          (delete_edge g n d, remove1 d downstreams, lg))
         | _ \<Rightarrow> Raised TypeError (g, downstreams, lg))
      else Done (g, downstreams, lg))"

text \<open>
  Lines 159-178: the loop over the black list.  The test for the synthesized stream
  sits inside this loop, after the scan of each pattern.
\<close>

fun black_list_loop ::
  "world \<Rightarrow> llm_parameters \<Rightarrow> dict \<Rightarrow> node \<Rightarrow> pyval list \<Rightarrow> node list \<Rightarrow> sched_state
     \<Rightarrow> (node list \<times> sched_state) outcome" where
  "black_list_loop w lp resp n [] downstreams s = Done (downstreams, s)"
| "black_list_loop w lp resp n (black_node # r) downstreams s =
     (case prune_downstreams w black_node n (length downstreams)
             (runtime_graph s, downstreams, log s) of
        Raised e (g, ds, lg) \<Rightarrow> Raised e (ds, s\<lparr>runtime_graph := g, log := lg\<rparr>)
      | Done (g, ds, lg) \<Rightarrow>
          let s1 = s\<lparr>runtime_graph := g, log := lg\<rparr> in
          if length ds = 0 \<and> stream lp then
            (case map_of resp (U ''text'') of
               None \<Rightarrow> Raised KeyError (ds, s1)
             | Some text \<Rightarrow>
                 black_list_loop w lp resp n r ds
                   (s1\<lparr>result_dict := (result_dict s1)(n \<mapsto> Streaming (FakeStream text)),
                       trace := trace s1 @ [Recorded n]\<rparr>))
          else black_list_loop w lp resp n r ds s1)"

text \<open>Lines 158-178: the guard of the black list.  \<open>in\<close> on \<open>bytes\<close> with a
  \<open>str\<close> operand raises.\<close>

definition apply_black_list ::
  "world \<Rightarrow> llm_parameters \<Rightarrow> response \<Rightarrow> node \<Rightarrow> node list \<Rightarrow> sched_state
     \<Rightarrow> (node list \<times> sched_state) outcome" where
  "apply_black_list w lp resp n downstreams s =
     (case resp of
        Streaming _ \<Rightarrow> Done (downstreams, s)
      | Audio _ \<Rightarrow> Raised TypeError (downstreams, s)
      | Structured d \<Rightarrow>
          (case map_of d (U ''downstream_black_list'') of
             None \<Rightarrow> Done (downstreams, s)
           | Some bl \<Rightarrow>
               (case py_iter bl of
                  Inl e \<Rightarrow> Raised e (downstreams, s)
                | Inr black_nodes \<Rightarrow> black_list_loop w lp d n black_nodes downstreams s)))"

text \<open>Lines 180-189: the readiness scan.  \<open>process_outputs\<close> builds a new dictionary,
  which gets the next free address.\<close>

fun ready_scan :: "node list \<Rightarrow> sched_state \<Rightarrow> sched_state outcome" where
  "ready_scan [] s = Done s"
| "ready_scan (d_node # r) s =
     (if list_all (\<lambda>i. result_dict s i \<noteq> None) (predecessors (runtime_graph s) d_node) then
        (case process_outputs (predecessors (runtime_graph s) d_node) (result_dict s) [] of
           Inl e \<Rightarrow> Raised e s
         | Inr inputs \<Rightarrow>
             ready_scan r
               (s\<lparr>heap := (heap s)(next_addr s := inputs),
                  next_addr := Suc (next_addr s),
                  created := created s @ [(d_node, next_addr s)],
                  trace := trace s @ [Dispatched d_node]\<rparr>))
      else ready_scan r s)"

text \<open>Lines 151-189: the body of \<open>for done_task in done\<close>.\<close>

definition handle_done :: "world \<Rightarrow> llm_parameters \<Rightarrow> error + response \<times> node \<Rightarrow> sched_state
     \<Rightarrow> sched_state outcome" where
  "handle_done w lp done_task s =
     (case done_task of
        Inl e \<Rightarrow> Raised e s
      | Inr (resp, n) \<Rightarrow>
          let s1 = s\<lparr>result_dict := (result_dict s)(n \<mapsto> resp), trace := trace s @ [Recorded n]\<rparr>;
              downstreams = downstream (runtime_graph s1) n
          in (case apply_black_list w lp resp n downstreams s1 of
                Raised e (ds, s2) \<Rightarrow> Raised e s2
              | Done (ds, s2) \<Rightarrow> ready_scan ds s2))"

fun handle_batch :: "world \<Rightarrow> llm_parameters \<Rightarrow> (error + response \<times> node) list \<Rightarrow> sched_state
     \<Rightarrow> sched_state outcome" where
  "handle_batch w lp [] s = Done s"
| "handle_batch w lp (t # ts) s =
     (case handle_done w lp t s of
        Raised e s' \<Rightarrow> Raised e s'
      | Done s' \<Rightarrow> handle_batch w lp ts s')"

text \<open>
  When \<open>schedule\<close> suspends in \<open>asyncio.wait\<close>, every task created since the last
  suspension runs, in the order of creation, up to its first suspension: the overlay
  and, on the streaming branch, the whole body.
\<close>

fun start_tasks :: "world \<Rightarrow> llm_parameters \<Rightarrow> (node \<times> addr) list \<Rightarrow> sched_state \<Rightarrow> sched_state" where
  "start_tasks w lp [] s = s"
| "start_tasks w lp ((n, a) # ts) s =
     (case execute w lp (runtime_graph s) (heap s) n a of
        (h', out) \<Rightarrow> start_tasks w lp ts (s\<lparr>heap := h', running := running s @ [(n, out)]\<rparr>))"

definition start_created :: "world \<Rightarrow> llm_parameters \<Rightarrow> sched_state \<Rightarrow> sched_state" where
  "start_created w lp s = start_tasks w lp (created s) (s\<lparr>created := []\<rparr>)"

text \<open>
  \<open>asyncio.wait(pending, return_when=FIRST_COMPLETED)\<close> returns a non-empty set of
  finished tasks, which the \<open>for\<close> loop visits in some order.  The choice is not the
  program's: a batch names, in the order of the visit, the positions of the finished
  tasks among the running ones.
\<close>

definition valid_batch :: "nat list \<Rightarrow> 'a list \<Rightarrow> bool" where
  "valid_batch b ts = (b \<noteq> [] \<and> distinct b \<and> list_all (\<lambda>i. i < length ts) b)"

definition remaining :: "nat list \<Rightarrow> 'a list \<Rightarrow> 'a list" where
  "remaining b ts = map (\<lambda>i. ts ! i) (filter (\<lambda>i. i \<notin> set b) [0..<length ts])"

text \<open>
  Lines 148-189: \<open>while pending\<close>.  The loop runs as long as the environment
  delivers completions; the list of batches is what it delivers, and \<open>None\<close> says
  that the list ended (or named no possible batch) while tasks were still pending.
\<close>

fun schedule_loop :: "world \<Rightarrow> llm_parameters \<Rightarrow> nat list list \<Rightarrow> sched_state
     \<Rightarrow> sched_state outcome option" where
  "schedule_loop w lp [] s = (if created s = [] \<and> running s = [] then Some (Done s) else None)"
| "schedule_loop w lp (b # bs) s =
     (if created s = [] \<and> running s = [] then Some (Done s)
      else let s1 = start_created w lp s in
           if \<not> valid_batch b (running s1) then None
           else (case handle_batch w lp (map (\<lambda>i. snd (running s1 ! i)) b)
                        (s1\<lparr>running := remaining b (running s1)\<rparr>) of
                   Raised e s2 \<Rightarrow> Some (Raised e s2)
                 | Done s2 \<Rightarrow> schedule_loop w lp bs s2))"

section \<open>Metrics\<close>

text \<open>
  \<open>OrchestratorMetrics\<close>, as the calls it receives: the arguments of
  \<open>pending_update\<close> and of \<open>token_update\<close> (its flag \<open>is_first\<close>) in order, and
  the number of calls of \<open>request_update\<close>.  The observed durations are not modelled.
  The gauge is what the calls of \<open>pending_update\<close> add up to.
\<close>

record metrics =
  pending_calls :: "bool list"
  request_calls :: nat
  token_calls :: "bool list"

definition pending_update :: "bool \<Rightarrow> metrics \<Rightarrow> metrics" where
  "pending_update increase m = m\<lparr>pending_calls := pending_calls m @ [increase]\<rparr>"

definition request_update :: "metrics \<Rightarrow> metrics" where
  "request_update m = m\<lparr>request_calls := Suc (request_calls m)\<rparr>"

definition token_update :: "bool \<Rightarrow> metrics \<Rightarrow> metrics" where
  "token_update is_first m = m\<lparr>token_calls := token_calls m @ [is_first]\<rparr>"

definition request_pending :: "metrics \<Rightarrow> int" where
  "request_pending m =
     int (length (filter (\<lambda>b. b) (pending_calls m))) - int (length (filter (\<lambda>b. \<not> b) (pending_calls m)))"

section \<open>schedule\<close>

text \<open>Lines 132-146: the runtime graph is a copy of the graph, every root gets a task,
  and every root task gets the same object \<open>initial_inputs\<close> (address 0).\<close>

definition initial_state :: "graph \<Rightarrow> dict \<Rightarrow> sched_state" where
  "initial_state g initial_inputs =
     \<lparr>result_dict = (\<lambda>n. None),
      runtime_graph = g,
      created = map (\<lambda>n. (n, 0)) (ind_nodes g),
      running = [],
      heap = (\<lambda>a. [])(0 := initial_inputs),
      next_addr = 1,
      trace = map Dispatched (ind_nodes g),
      log = []\<rparr>"

text \<open>Lines 190-199.\<close>

definition prune_unreachable :: "node list \<Rightarrow> graph \<Rightarrow> graph" where
  "prune_unreachable roots g =
     (let nodes_to_keep = concat (map (\<lambda>i. i # all_downstreams g i) roots)
      in fold (\<lambda>n g'. if n \<notin> set nodes_to_keep then delete_node_if_exists g' n else g')
              (map fst g) g)"

text \<open>
  \<open>schedule\<close>.  An exception of the loop leaves through \<open>async with\<close> and skips
  lines 190-204.  The result carries the metrics, which outlive the call.
\<close>

definition schedule ::
  "world \<Rightarrow> graph \<Rightarrow> dict \<Rightarrow> llm_parameters \<Rightarrow> nat list list \<Rightarrow> metrics
     \<Rightarrow> (metrics \<times> sched_state outcome) option" where
  "schedule w g initial_inputs lp batches m =
     (let m1 = pending_update True m in
      case schedule_loop w lp batches (initial_state g initial_inputs) of
        None \<Rightarrow> None
      | Some (Raised e s) \<Rightarrow> Some (m1, Raised e s)
      | Some (Done s) \<Rightarrow>
          Some (if \<not> stream lp then pending_update False m1 else m1,
                Done (s\<lparr>runtime_graph := prune_unreachable (ind_nodes g) (runtime_graph s)\<rparr>)))"

section \<open>Strings of the wire format\<close>

definition startswith :: "pystr \<Rightarrow> pystr \<Rightarrow> bool" where
  "startswith s p = (take (length p) s = p)"

definition endswith :: "pystr \<Rightarrow> pystr \<Rightarrow> bool" where
  "endswith s p = (length p \<le> length s \<and> drop (length s - length p) s = p)"

definition done_event :: pystr where
  "done_event = U ''data: [DONE]'' @ [10, 10]"

text \<open>\<open>extract_chunk_str\<close>; 39 is the single and 34 the double quote, 10 the line feed.
  Both slices use the length of the first prefix and of the first suffix.\<close>

definition extract_chunk_str :: "pystr \<Rightarrow> pystr" where
  "extract_chunk_str chunk_str =
     (if chunk_str = done_event then []
      else
        let prefix = U ''data: b'' @ [39];
            prefix_2 = U ''data: b'' @ [34];
            suffix = [39, 10, 10];
            suffix_2 = [34, 10, 10];
            c1 = (if startswith chunk_str prefix \<or> startswith chunk_str prefix_2
                  then drop (length prefix) chunk_str else chunk_str);
            c2 = (if endswith c1 suffix \<or> endswith c1 suffix_2
                  then take (length c1 - length suffix) c1 else c1)
        in c2)"

text \<open>\<open>token.replace("\\n", "\n")\<close>: every backslash (92) followed by \<open>n\<close> (110)
  becomes a line feed, from left to right.\<close>

fun replace_backslash_n :: "pystr \<Rightarrow> pystr" where
  "replace_backslash_n (a # b # r) =
     (if a = 92 \<and> b = 110 then 10 # replace_backslash_n r
      else a # replace_backslash_n (b # r))"
| "replace_backslash_n s = s"

text \<open>\<open>str.encode("utf-8")\<close>: a surrogate cannot be encoded.\<close>

definition utf8_encode_char :: "nat \<Rightarrow> bytes option" where
  "utf8_encode_char c =
     (if c < 128 then Some [c]
      else if c < 2048 then Some [192 + c div 64, 128 + c mod 64]
      else if c < 65536 then
        (if 55296 \<le> c \<and> c \<le> 57343 then None
         else Some [224 + c div 4096, 128 + (c div 64) mod 64, 128 + c mod 64])
      else if c < 1114112 then
        Some [240 + c div 262144, 128 + (c div 4096) mod 64, 128 + (c div 64) mod 64,
              128 + c mod 64]
      else None)"

fun utf8_encode :: "pystr \<Rightarrow> error + bytes" where
  "utf8_encode [] = Inr []"
| "utf8_encode (c # r) =
     (case utf8_encode_char c of
        None \<Rightarrow> Inl UnicodeEncodeError
      | Some bs \<Rightarrow> (case utf8_encode r of Inl e \<Rightarrow> Inl e | Inr rest \<Rightarrow> Inr (bs @ rest)))"

text \<open>\<open>bytes.decode("utf-8")\<close>, strict: no overlong forms, no surrogates, nothing
  beyond U+10FFFF.\<close>

definition continuation :: "nat \<Rightarrow> bool" where
  "continuation b = (128 \<le> b \<and> b < 192)"

fun utf8_decode :: "bytes \<Rightarrow> error + pystr" where
  "utf8_decode [] = Inr []"
| "utf8_decode (b # bs) =
     (if b < 128 then
        (case utf8_decode bs of Inl e \<Rightarrow> Inl e | Inr r \<Rightarrow> Inr (b # r))
      else if 194 \<le> b \<and> b < 224 then
        (case bs of
           b1 # t \<Rightarrow>
             (if continuation b1 then
                (case utf8_decode t of Inl e \<Rightarrow> Inl e
                 | Inr r \<Rightarrow> Inr (((b - 192) * 64 + (b1 - 128)) # r))
              else Inl UnicodeDecodeError)
         | _ \<Rightarrow> Inl UnicodeDecodeError)
      else if 224 \<le> b \<and> b < 240 then
        (case bs of
           b1 # b2 # t \<Rightarrow>
             (if continuation b1 \<and> continuation b2
                 \<and> (b = 224 \<longrightarrow> 160 \<le> b1) \<and> (b = 237 \<longrightarrow> b1 < 160) then
                (case utf8_decode t of Inl e \<Rightarrow> Inl e
                 | Inr r \<Rightarrow> Inr (((b - 224) * 4096 + (b1 - 128) * 64 + (b2 - 128)) # r))
              else Inl UnicodeDecodeError)
         | _ \<Rightarrow> Inl UnicodeDecodeError)
      else if 240 \<le> b \<and> b < 245 then
        (case bs of
           b1 # b2 # b3 # t \<Rightarrow>
             (if continuation b1 \<and> continuation b2 \<and> continuation b3
                 \<and> (b = 240 \<longrightarrow> 144 \<le> b1) \<and> (b = 244 \<longrightarrow> b1 < 144) then
                (case utf8_decode t of Inl e \<Rightarrow> Inl e
                 | Inr r \<Rightarrow>
                     Inr (((b - 240) * 262144 + (b1 - 128) * 4096 + (b2 - 128) * 64
                           + (b3 - 128)) # r))
              else Inl UnicodeDecodeError)
         | _ \<Rightarrow> Inl UnicodeDecodeError)
      else Inl UnicodeDecodeError)"

text \<open>
  \<open>repr\<close> of a \<open>bytes\<close> object: the quote is the single quote unless the bytes hold a
  single and no double quote; the quote and the backslash are escaped, tab, line feed
  and carriage return are written \<open>\t\<close>, \<open>\n\<close> and \<open>\r\<close>, every other byte
  outside the printable ASCII range as \<open>\xhh\<close>.
\<close>

definition hex_digit :: "nat \<Rightarrow> nat" where
  "hex_digit d = (if d < 10 then 48 + d else 87 + d)"

definition repr_byte :: "nat \<Rightarrow> nat \<Rightarrow> pystr" where
  "repr_byte quote c =
     (if c = quote \<or> c = 92 then [92, c]
      else if c = 9 then [92, 116]
      else if c = 10 then [92, 110]
      else if c = 13 then [92, 114]
      else if c < 32 \<or> 127 \<le> c then [92, 120, hex_digit (c div 16), hex_digit (c mod 16)]
      else [c])"

definition bytes_repr :: "bytes \<Rightarrow> pystr" where
  "bytes_repr bs =
     (let quote = (if 39 \<in> set bs \<and> 34 \<notin> set bs then 34 else 39)
      in [98, quote] @ concat (map (repr_byte quote) bs) @ [quote])"

text \<open>The character class \<open>\s\<close> of a \<open>str\<close> pattern: Python's Unicode whitespace.\<close>

definition is_space :: "nat \<Rightarrow> bool" where
  "is_space c =
     ((9 \<le> c \<and> c \<le> 13) \<or> (28 \<le> c \<and> c \<le> 32) \<or> c = 133 \<or> c = 160 \<or> c = 5760
      \<or> (8192 \<le> c \<and> c \<le> 8202) \<or> c = 8232 \<or> c = 8233 \<or> c = 8239 \<or> c = 8287
      \<or> c = 12288)"

text \<open>
  \<open>re.findall(r"\s?\S+\s?", sentence, re.UNICODE)\<close>: the matches from left to
  right, without overlap.  At a position the optional leading space is taken when a
  non-space follows it; the run of non-spaces is taken whole, then one space if there
  is one.  A space followed by no non-space starts no match.
\<close>

function findall_tokens :: "pystr \<Rightarrow> pystr list" where
  "findall_tokens [] = []"
| "findall_tokens (c # r) =
     (if is_space c \<and> (r = [] \<or> is_space (hd r)) then findall_tokens r
      else
        let lead = (if is_space c then [c] else []);
            s = (if is_space c then r else c # r);
            body = takeWhile (\<lambda>x. \<not> is_space x) s;
            rest = dropWhile (\<lambda>x. \<not> is_space x) s
        in (case rest of
              [] \<Rightarrow> [lead @ body]
            | e # rest' \<Rightarrow> (lead @ body @ [e]) # findall_tokens rest'))"
  by pat_completeness auto

termination
proof (relation "measure length")
  show "wf (measure length)" by simp
next
  fix c :: nat and r :: "nat list"
  assume "is_space c \<and> (r = [] \<or> is_space (hd r))"
  show "(r, c # r) \<in> measure length" by simp
next
  fix c :: nat and r x xa xb xc :: "nat list" and x21 :: nat and x22 :: "nat list"
  assume xa: "xa = (if is_space c then r else c # r)"
    and xc: "xc = dropWhile (\<lambda>x. \<not> is_space x) xa"
    and split: "xc = x21 # x22"
  have "length xc \<le> length xa"
    unfolding xc by (rule length_dropWhile_le)
  moreover have "length xa \<le> Suc (length r)"
    unfolding xa by simp
  ultimately show "(x22, c # r) \<in> measure length"
    using split by simp
qed

section \<open>The stream stitcher\<close>

datatype item = Text pystr | Raw bytes

text \<open>The frame that \<open>token_generator\<close> builds for one token (line 425).\<close>

definition frame :: "pystr \<Rightarrow> error + pystr" where
  "frame token =
     (case utf8_encode (replace_backslash_n token) of
        Inl e \<Rightarrow> Inl e
      | Inr bs \<Rightarrow> Inr (U ''data: '' @ bytes_repr bs @ [10, 10]))"

text \<open>
  \<open>token_generator\<close>, run to its end: the events it yields are appended to the ones
  already emitted.  A sentence that is no \<open>str\<close> makes \<open>re.findall\<close> raise.
\<close>

fun emit_tokens :: "pystr list \<Rightarrow> bool \<Rightarrow> item list \<times> metrics \<Rightarrow> (item list \<times> metrics) outcome" where
  "emit_tokens [] is_first st = Done st"
| "emit_tokens (token # r) is_first (out, m) =
     (let m1 = token_update is_first m in
      case frame token of
        Inl e \<Rightarrow> Raised e (out, m1)
      | Inr ev \<Rightarrow> emit_tokens r False (out @ [Text ev], m1))"

definition token_generator ::
  "pyval \<Rightarrow> bool \<Rightarrow> bool \<Rightarrow> item list \<times> metrics \<Rightarrow> (item list \<times> metrics) outcome" where
  "token_generator sentence is_first is_last st =
     (case sentence of
        VStr txt \<Rightarrow>
          (case emit_tokens (findall_tokens txt) is_first st of
             Raised e st' \<Rightarrow> Raised e st'
           | Done (out, m) \<Rightarrow> Done (if is_last then out @ [Text done_event] else out, m))
      | _ \<Rightarrow> Raised TypeError st)"

text \<open>The terminators \<open>hitted_ends\<close>: \<open>.\<close>, \<open>?\<close>, \<open>!\<close>, U+3002, U+FF0C, U+FF01.\<close>

definition hitted_ends :: "nat list" where
  "hitted_ends = [46, 63, 33, 12290, 65292, 65281]"

text \<open>
  The local variables of \<open>generate\<close>, the events it has yielded, the bodies it has
  posted to the downstream service, and the metrics.
\<close>

record stitch =
  buffered_chunk_str :: pystr
  is_first :: bool
  emitted :: "item list"
  posted :: "(node \<times> pystr) list"
  meters :: metrics

text \<open>Lines 305-347: the loop over the chunks of the upstream reply.\<close>

fun generate_chunks :: "world \<Rightarrow> node list \<Rightarrow> bytes list \<Rightarrow> stitch \<Rightarrow> stitch outcome" where
  "generate_chunks w downs [] st = Done st"
| "generate_chunks w downs (chunk # r) st =
     (if chunk = [] then generate_chunks w downs r st
      else if downs \<noteq> [] then
        (case utf8_decode chunk of
           Inl e \<Rightarrow> Raised e st
         | Inr chunk_str \<Rightarrow>
             let st1 = st\<lparr>buffered_chunk_str := buffered_chunk_str st @ extract_chunk_str chunk_str\<rparr>;
                 is_last = endswith chunk_str (U ''[DONE]'' @ [10, 10])
             in if (buffered_chunk_str st1 \<noteq> [] \<and> last (buffered_chunk_str st1) \<in> set hitted_ends)
                   \<or> is_last then
                  (let st2 = st1\<lparr>posted := posted st1 @ [(hd downs, buffered_chunk_str st1)]\<rparr> in
                   case http_post_segment w (hd downs) (buffered_chunk_str st1) of
                     Inl e \<Rightarrow> Raised e st2
                   | Inr res_json \<Rightarrow>
                       (case map_of res_json (U ''text'') of
                          None \<Rightarrow> Raised OtherResponseNotSupported st2
                        | Some res_txt \<Rightarrow>
                            (case token_generator res_txt (is_first st2) is_last
                                    (emitted st2, meters st2) of
                               Raised e (out, m) \<Rightarrow>
                                 Raised e (st2\<lparr>buffered_chunk_str := [], emitted := out, meters := m\<rparr>)
                             | Done (out, m) \<Rightarrow>
                                 generate_chunks w downs r
                                   (st2\<lparr>buffered_chunk_str := [], emitted := out, meters := m,
                                        is_first := False\<rparr>))))
                else generate_chunks w downs r st1)
      else generate_chunks w downs r
             (st\<lparr>meters := token_update (is_first st) (meters st), is_first := False,
                 emitted := emitted st @ [Raw chunk]\<rparr>))"

definition new_stitch :: "metrics \<Rightarrow> stitch" where
  "new_stitch m = \<lparr>buffered_chunk_str = [], is_first = True, emitted = [], posted = [], meters = m\<rparr>"

text \<open>
  \<open>generate\<close>, iterated to its end by the server.  Lines 349-350 follow the loop, inside
  \<open>if response\<close>; an exception of the loop leaves the generator before them.
\<close>

definition generate :: "world \<Rightarrow> upstream \<Rightarrow> node list \<Rightarrow> metrics \<Rightarrow> stitch outcome" where
  "generate w resp downs m =
     (if ok resp then
        (case generate_chunks w downs (chunks resp) (new_stitch m) of
           Raised e st \<Rightarrow> Raised e st
         | Done st \<Rightarrow>
             if broken resp then Raised TransportError st
             else Done (st\<lparr>meters := pending_update False (request_update (meters st))\<rparr>))
      else Done (new_stitch m))"

text \<open>Lines 172-174: \<open>fake_stream\<close>; the concatenation needs a \<open>str\<close>.\<close>

definition fake_stream :: "pyval \<Rightarrow> metrics \<Rightarrow> stitch outcome" where
  "fake_stream text m =
     (case text of
        VStr t \<Rightarrow>
          Done ((new_stitch m)\<lparr>emitted := [Text (U ''data: b'' @ [39] @ t @ [39, 10, 10]),
                                           Text done_event]\<rparr>)
      | _ \<Rightarrow> Raised TypeError (new_stitch m))"

text \<open>What a client sees when it reads a \<open>StreamingResponse\<close> to its end.\<close>

fun run_stream :: "world \<Rightarrow> streaming \<Rightarrow> metrics \<Rightarrow> stitch outcome" where
  "run_stream w (FakeStream text) m = fake_stream text m"
| "run_stream w (Generate resp downs) m = generate w resp downs m"

text \<open>Python's \<open>p in s\<close> for two strings.\<close>

definition py_in :: "pystr \<Rightarrow> pystr \<Rightarrow> bool" where
  "py_in p s = list_ex (\<lambda>i. take (length p) (drop i s) = p) [0..<Suc (length s)]"

text \<open>The printable ASCII characters, which \<open>repr\<close> writes as they are (the quote and
  the backslash apart).\<close>

definition printable :: "nat \<Rightarrow> bool" where
  "printable c = (32 \<le> c \<and> c < 127)"

text \<open>Every backslash of the token is followed by the letter \<open>n\<close>: these are the
  backslashes that \<open>replace_backslash_n\<close> turns into line feeds.\<close>

fun only_backslash_n :: "pystr \<Rightarrow> bool" where
  "only_backslash_n (a # b # r) =
     (if a = 92 then b = 110 \<and> only_backslash_n r else only_backslash_n (b # r))"
| "only_backslash_n [a] = (a \<noteq> 92)"
| "only_backslash_n [] = True"

section \<open>Predicates of the properties\<close>


text \<open>What a scan may do to the runtime graph and to the local list of the downstream
  nodes of \<open>n\<close>: both only shrink, the keys and the other nodes stay, and the list
  stays the list of successors of \<open>n\<close>.\<close>

definition pruned :: "node \<Rightarrow> graph \<times> node list \<Rightarrow> graph \<times> node list \<Rightarrow> bool" where
  "pruned n a b =
     (case (a, b) of ((g, ds), (g', ds')) \<Rightarrow>
        set ds' \<subseteq> set ds
        \<and> (\<forall>x. set (predecessors g' x) \<subseteq> set (predecessors g x))
        \<and> map fst g' = map fst g
        \<and> (graph_ok g \<longrightarrow> graph_ok g')
        \<and> (\<forall>k. k \<noteq> n \<longrightarrow> downstream g' k = downstream g k)
        \<and> (distinct ds \<and> downstream g n = ds \<longrightarrow> downstream g' n = ds' \<and> distinct ds'))"

text \<open>What the loop over the black list leaves alone, and what it may change.\<close>

definition black_list_frame :: "node \<Rightarrow> node list \<times> sched_state \<Rightarrow> node list \<times> sched_state \<Rightarrow> bool" where
  "black_list_frame n a b =
     (case (a, b) of ((ds, s), (ds', s')) \<Rightarrow>
        pruned n (runtime_graph s, ds) (runtime_graph s', ds')
        \<and> created s' = created s \<and> running s' = running s
        \<and> heap s' = heap s \<and> next_addr s' = next_addr s
        \<and> (\<exists>k. trace s' = trace s @ replicate k (Recorded n))
        \<and> (\<forall>m. m \<noteq> n \<longrightarrow> result_dict s' m = result_dict s m)
        \<and> (result_dict s' n = result_dict s n
            \<or> (ds' = [] \<and> (\<exists>t. result_dict s' n = Some (Streaming (FakeStream t))))))"

section \<open>Example requests\<close>

text \<open>An environment whose \<open>re.findall\<close> knows the patterns of the examples: the
  pattern \<open>(\<close>, which does not compile (\<open>re.error\<close>), the pattern
  \<open>a{4294967296}\<close>, on which the compiler raises \<open>OverflowError\<close>, the pattern
  \<open>.*\<close> that matches every name, and patterns without special characters, which match
  the names that contain them.\<close>

definition example_findall :: "pystr \<Rightarrow> pystr \<Rightarrow> error + bool" where
  "example_findall p d =
     (if p = U ''('' then Inl ReError
      else if p = U ''a{4294967296}'' then Inl OverflowError
      else if p = U ''.*'' then Inr True
      else Inr (py_in p d))"

definition no_metrics :: metrics where
  "no_metrics = \<lparr>pending_calls = [], request_calls = 0, token_calls = []\<rparr>"

definition streaming_on :: llm_parameters where
  "streaming_on = \<lparr>stream = True, as_dict = [(U ''stream'', VBool True)]\<rparr>"

definition streaming_off :: llm_parameters where
  "streaming_off = \<lparr>stream = False, as_dict = [(U ''stream'', VBool False)]\<rparr>"

text \<open>Unary services that answer with their own name as the only key.\<close>

definition plain_world :: world where
  "plain_world =
     \<lparr>services = (\<lambda>n. Some \<lparr>service_type = OTHER, api_key_value = None\<rparr>),
      http_post = (\<lambda>n d. Inr (JsonReply [(n, VInt 1)])),
      http_post_stream = (\<lambda>n d. Inl TransportError),
      http_post_segment = (\<lambda>n t. Inl TransportError),
      re_findall = example_findall\<rparr>"

definition fan_in :: graph where
  "fan_in = [(U ''A'', [U ''C'']), (U ''B'', [U ''C'']), (U ''C'', [])]"

text \<open>A guardrail \<open>G\<close> whose reply is given, in front of \<open>X\<close> and \<open>Y\<close>.\<close>

definition guard_world :: "dict \<Rightarrow> world" where
  "guard_world verdict =
     \<lparr>services = (\<lambda>n. if n = U ''G'' then Some \<lparr>service_type = GUARDRAIL, api_key_value = None\<rparr>
                       else if n = U ''X'' \<or> n = U ''Y''
                       then Some \<lparr>service_type = OTHER, api_key_value = None\<rparr>
                       else None),
      http_post = (\<lambda>n d. if n = U ''G'' then Inr (JsonReply verdict)
                           else Inr (JsonReply [(n, VInt 1)])),
      http_post_stream = (\<lambda>n d. Inl TransportError),
      http_post_segment = (\<lambda>n t. Inl TransportError),
      re_findall = example_findall\<rparr>"

definition veto :: "pystr \<Rightarrow> dict" where
  "veto p = [(U ''downstream_black_list'', VList [VStr p]), (U ''text'', VStr (U ''ok''))]"

definition guard_graph :: graph where
  "guard_graph = [(U ''G'', [U ''X'', U ''Y'']), (U ''X'', []), (U ''Y'', [])]"

text \<open>The upstream reply of scenario 5, one chunk for each event.\<close>

definition five_tokens :: upstream where
  "five_tokens =
     \<lparr>ok = True,
      chunks = map (\<lambda>t. U ''data: b'' @ [39] @ U t @ [39, 10, 10])
                 [''Hi'', '' there'', ''.'', '' How'', ''?''] @ [done_event],
      broken = False\<rparr>"

text \<open>An \<open>LLM\<close> in front of a \<open>TTS\<close> whose reply to a segment is given.\<close>

definition stitch_world :: "(pystr \<Rightarrow> error + dict) \<Rightarrow> world" where
  "stitch_world tts =
     \<lparr>services = (\<lambda>n. if n = U ''LLM'' then Some \<lparr>service_type = LLM, api_key_value = None\<rparr>
                       else if n = U ''TTS'' then Some \<lparr>service_type = TTS, api_key_value = None\<rparr>
                       else None),
      http_post = (\<lambda>n d. Inr (JsonReply d)),
      http_post_stream = (\<lambda>n d. Inr five_tokens),
      http_post_segment = (\<lambda>n t. tts t),
      re_findall = example_findall\<rparr>"

definition echo_text :: "pystr \<Rightarrow> error + dict" where
  "echo_text t = Inr [(U ''text'', VStr t)]"

definition no_text :: "pystr \<Rightarrow> error + dict" where
  "no_text t = Inr [(U ''audio'', VStr t)]"

definition stitch_graph :: graph where
  "stitch_graph = [(U ''LLM'', [U ''TTS'']), (U ''TTS'', [])]"

text \<open>
  Topological execution, read off the trace: whenever a task for \<open>v\<close> is created, every
  predecessor of \<open>v\<close> in the runtime graph has been recorded in \<open>result_dict\<close> earlier in
  the trace.
\<close>

definition topological :: "sched_state \<Rightarrow> bool" where
  "topological s =
     list_all (\<lambda>i. case trace s ! i of
                      Dispatched v \<Rightarrow>
                        list_all (\<lambda>u. Recorded u \<in> set (take i (trace s)))
                                 (predecessors (runtime_graph s) v)
                    | Recorded u \<Rightarrow> True)
              [0..<length (trace s)]"

text \<open>Every node with a result in the table has been recorded in the trace.\<close>

definition recorded_results :: "sched_state \<Rightarrow> bool" where
  "recorded_results s = (\<forall>u. result_dict s u \<noteq> None \<longrightarrow> Recorded u \<in> set (trace s))"

fun is_streaming :: "response \<Rightarrow> bool" where
  "is_streaming (Streaming g) = True"
| "is_streaming r = False"

text \<open>The nodes on which \<open>execute\<close> was invoked, in order.\<close>

fun dispatched_nodes :: "event list \<Rightarrow> node list" where
  "dispatched_nodes [] = []"
| "dispatched_nodes (Dispatched n # es) = n # dispatched_nodes es"
| "dispatched_nodes (Recorded n # es) = dispatched_nodes es"

text \<open>The nodes of the tasks in \<open>pending\<close>.\<close>

definition inflight :: "sched_state \<Rightarrow> node list" where
  "inflight s = map fst (running s) @ map fst (created s)"

text \<open>A task yields its own node unless it yields a \<open>StreamingResponse\<close>.\<close>

definition own_result :: "node \<times> (error + response \<times> node) \<Rightarrow> bool" where
  "own_result t = (case snd t of Inl e \<Rightarrow> True | Inr (r, m) \<Rightarrow> is_streaming r \<or> m = fst t)"

text \<open>
  The invariant behind single dispatch, with \<open>fl\<close> the nodes of the finished tasks of
  the current batch that are still to be visited: no node was dispatched twice; the
  live tasks are for different nodes, all dispatched; a node with a result that is no
  stream has had its task finished; so has every predecessor of a dispatched node.
\<close>

definition sd_inv :: "node list \<Rightarrow> sched_state \<Rightarrow> bool" where
  "sd_inv fl s =
     (distinct (dispatched_nodes (trace s))
      \<and> distinct (fl @ inflight s)
      \<and> set (fl @ inflight s) \<subseteq> set (dispatched_nodes (trace s))
      \<and> (\<forall>m r. result_dict s m = Some r \<and> \<not> is_streaming r \<longrightarrow>
             m \<in> set (dispatched_nodes (trace s)) \<and> m \<notin> set (fl @ inflight s))
      \<and> (\<forall>x \<in> set (dispatched_nodes (trace s)).
            \<forall>u \<in> set (predecessors (runtime_graph s) x).
              u \<in> set (dispatched_nodes (trace s)) \<and> u \<notin> set (fl @ inflight s))
      \<and> list_all own_result (running s)
      \<and> graph_ok (runtime_graph s))"





text \<open>A payload with a text and no black list, and a graph with the guardrail alone.\<close>

definition only_text :: dict where
  "only_text = [(U ''text'', VStr (U ''ok''))]"

definition lone_guard :: graph where
  "lone_guard = [(U ''G'', [])]"

text \<open>Payloads of the guardrail: a black list of several patterns with a text, a black
  list without a text, and a black list with a text that is no string.\<close>

definition veto_list :: "pystr list \<Rightarrow> dict" where
  "veto_list ps = [(U ''downstream_black_list'', VList (map VStr ps)), (U ''text'', VStr (U ''ok''))]"

definition veto_no_text :: "pystr \<Rightarrow> dict" where
  "veto_no_text p = [(U ''downstream_black_list'', VList [VStr p])]"

definition veto_number :: dict where
  "veto_number = [(U ''downstream_black_list'', VList [VStr (U ''.*'')]), (U ''text'', VInt 5)]"

text \<open>The condition of line 311 on the buffer (after the chunk was appended) and the
  decoded chunk.\<close>

definition flushes :: "pystr \<Rightarrow> pystr \<Rightarrow> bool" where
  "flushes buf chunk_str =
     ((buf \<noteq> [] \<and> last buf \<in> set hitted_ends) \<or> endswith chunk_str (U ''[DONE]'' @ [10, 10]))"

text \<open>The node is registered with service type \<open>LLM\<close> or \<open>LVM\<close>.\<close>

definition is_llm_node :: "world \<Rightarrow> node \<Rightarrow> bool" where
  "is_llm_node w n =
     (case services w n of
        None \<Rightarrow> False
      | Some svc \<Rightarrow> service_type svc = LLM \<or> service_type svc = LVM)"

text \<open>Two roots, an \<open>LLM\<close> and a \<open>TTS\<close>.\<close>

definition two_roots :: graph where
  "two_roots = [(U ''LLM'', []), (U ''TTS'', [])]"

section \<open>Framing and unframing of tokens\<close>

lemma utf8_encode_ascii: "\<forall>c \<in> set t. c < 128 \<Longrightarrow> utf8_encode t = Inr t"
  by (induction t) (auto simp: utf8_encode_char_def)

lemma utf8_encode_char_bytes: "utf8_encode_char c = Some bs \<Longrightarrow> b \<in> set bs \<Longrightarrow> b < 256"
  by (auto simp: utf8_encode_char_def split: if_splits)

lemma utf8_encode_bytes: "utf8_encode s = Inr bs \<Longrightarrow> b \<in> set bs \<Longrightarrow> b < 256"
proof (induction s arbitrary: bs)
  case Nil
  then show ?case by simp
next
  case (Cons c r)
  from Cons.prems(1) obtain cs rest where
    c: "utf8_encode_char c = Some cs" and r: "utf8_encode r = Inr rest" and bs: "bs = cs @ rest"
    by (auto split: option.splits sum.splits)
  from Cons.prems(2) bs have "b \<in> set cs \<or> b \<in> set rest" by simp
  then show ?case
    using utf8_encode_char_bytes[OF c] Cons.IH[OF r] by blast
qed

lemma repr_byte_printable:
  assumes "q = 39 \<or> q = 34" "b < 256" "c \<in> set (repr_byte q b)"
  shows "printable c"
proof -
  have "b div 16 < 16" using assms(2) by simp
  moreover have "b mod 16 < 16" by simp
  ultimately show ?thesis
    using assms(1,3)
    by (auto simp: repr_byte_def printable_def hex_digit_def split: if_splits)
qed

lemma replace_backslash_n_set:
  "c \<in> set (replace_backslash_n t) \<Longrightarrow> c = 10 \<or> c \<in> set t"
  by (induction t rule: replace_backslash_n.induct) (auto split: if_splits)

lemma replace_backslash_n_quote:
  "c \<noteq> 92 \<Longrightarrow> c \<noteq> 110 \<Longrightarrow> c \<noteq> 10 \<Longrightarrow> c \<in> set (replace_backslash_n t) \<longleftrightarrow> c \<in> set t"
  by (induction t rule: replace_backslash_n.induct) auto

lemma repr_replace_backslash_n:
  assumes "q = 39 \<or> q = 34"
  shows "list_all printable t \<Longrightarrow> only_backslash_n t \<Longrightarrow> q \<notin> set t \<Longrightarrow>
           concat (map (repr_byte q) (replace_backslash_n t)) = t"
  using assms
  by (induction t rule: replace_backslash_n.induct)
     (auto simp: repr_byte_def printable_def split: if_splits)

lemma repr_byte_length:
  "1 \<le> length (repr_byte q c)" "length (repr_byte q c) = 1 \<Longrightarrow> c \<noteq> q \<and> c \<noteq> 92"
  by (auto simp: repr_byte_def split: if_splits)

lemma repr_replace_length:
  assumes "q = 39 \<or> q = 34"
  shows "length t \<le> length (concat (map (repr_byte q) (replace_backslash_n t)))
         \<and> (length (concat (map (repr_byte q) (replace_backslash_n t))) = length t
              \<longrightarrow> only_backslash_n t \<and> q \<notin> set t)"
proof (induction t rule: replace_backslash_n.induct)
  case (1 a b r)
  define y where "y = length (concat (map (repr_byte q) (replace_backslash_n r)))"
  define z where "z = length (concat (map (repr_byte q) (replace_backslash_n (b # r))))"
  show ?case
  proof (cases "a = 92 \<and> b = 110")
    case True
    have "repr_byte q 10 = [92, 110]" using assms by (auto simp: repr_byte_def)
    then have len: "length (concat (map (repr_byte q) (replace_backslash_n (a # b # r)))) = 2 + y"
      using True by (simp add: y_def)
    from 1(1)[OF True] have ih: "length r \<le> y" "y = length r \<longrightarrow> only_backslash_n r \<and> q \<notin> set r"
      by (simp_all add: y_def)
    have "q \<noteq> a \<and> q \<noteq> b" using True assms by auto
    with ih True show ?thesis unfolding len by auto
  next
    case False
    have len: "length (concat (map (repr_byte q) (replace_backslash_n (a # b # r))))
                 = length (repr_byte q a) + z"
      using False by (auto simp: z_def)
    from 1(2)[OF False]
    have ih: "Suc (length r) \<le> z" "z = Suc (length r) \<longrightarrow> only_backslash_n (b # r) \<and> q \<notin> set (b # r)"
      by (simp_all add: z_def)
    have o: "a \<noteq> 92 \<Longrightarrow> only_backslash_n (a # b # r) = only_backslash_n (b # r)"
      by simp
    have ge: "length (a # b # r) \<le> length (repr_byte q a) + z"
      using ih(1) repr_byte_length(1)[of q a] by simp
    have "only_backslash_n (a # b # r) \<and> q \<notin> set (a # b # r)"
      if eq: "length (repr_byte q a) + z = length (a # b # r)"
    proof -
      from eq ih(1) repr_byte_length(1)[of q a]
      have x: "length (repr_byte q a) = 1" and z: "z = Suc (length r)" by simp_all
      from repr_byte_length(2)[OF x] have "a \<noteq> q" "a \<noteq> 92" by simp_all
      with ih(2) z o show ?thesis by auto
    qed
    with ge show ?thesis unfolding len by blast
  qed
qed (auto simp: repr_byte_def split: if_splits)

lemma extract_framed:
  assumes "q = 39 \<or> q = 34"
  shows "extract_chunk_str (U ''data: '' @ [98, q] @ t @ [q, 10, 10]) = t"
proof -
  have ne: "U ''data: '' @ [98, q] @ t @ [q, 10, 10] \<noteq> done_event"
    by (simp add: done_event_def U_def)
  show ?thesis
    using assms ne
    by (auto simp: extract_chunk_str_def Let_def startswith_def endswith_def U_def)
qed

lemma frame_extract:
  assumes "utf8_encode (replace_backslash_n t) = Inr bs"
  shows "\<exists>q. (q = 39 \<or> q = 34) \<and> q = (if 39 \<in> set bs \<and> 34 \<notin> set bs then 34 else 39)
           \<and> frame t = Inr (U ''data: '' @ [98, q] @ concat (map (repr_byte q) bs) @ [q, 10, 10])
           \<and> map_sum id extract_chunk_str (frame t) = Inr (concat (map (repr_byte q) bs))"
proof -
  define q :: nat where "q = (if 39 \<in> set bs \<and> 34 \<notin> set bs then 34 else 39)"
  have q: "q = 39 \<or> q = 34" by (simp add: q_def)
  have f: "frame t = Inr (U ''data: '' @ [98, q] @ concat (map (repr_byte q) bs) @ [q, 10, 10])"
    by (simp add: frame_def assms bytes_repr_def Let_def flip: q_def)
  have "map_sum id extract_chunk_str (frame t) = Inr (concat (map (repr_byte q) bs))"
    unfolding f using extract_framed[OF q] by simp
  with q f show ?thesis using q_def by blast
qed

text \<open>
  C5, as stated: for every token \<open>t\<close> that does not contain \<open>[DONE]\<close>,
  \<open>extract_chunk_str\<close> of the frame of \<open>t\<close> is \<open>t\<close>.  It fails for a token with a
  character outside ASCII (U+00E9), with a line feed (the token \<open>Hi\<close> followed by a
  line feed, which \<open>\s?\S+\s?\<close> produces), with a backslash that no \<open>n\<close> follows (a
  backslash alone, and a backslash followed by \<open>t\<close>), and with both kinds of quote:
  \<open>repr\<close> escapes them and \<open>extract_chunk_str\<close> does not undo the escapes.
\<close>

theorem frame_roundtrip_counterexample:
  "\<not> py_in (U ''[DONE]'') [233]
   \<and> map_sum id extract_chunk_str (frame [233]) = Inr [92, 120, 99, 51, 92, 120, 97, 57]
   \<and> \<not> py_in (U ''[DONE]'') [72, 105, 10]
   \<and> map_sum id extract_chunk_str (frame [72, 105, 10]) = Inr [72, 105, 92, 110]
   \<and> \<not> py_in (U ''[DONE]'') [92]
   \<and> map_sum id extract_chunk_str (frame [92]) = Inr [92, 92]
   \<and> \<not> py_in (U ''[DONE]'') [92, 116]
   \<and> map_sum id extract_chunk_str (frame [92, 116]) = Inr [92, 92, 116]
   \<and> \<not> py_in (U ''[DONE]'') [39, 34]
   \<and> map_sum id extract_chunk_str (frame [39, 34]) = Inr [92, 39, 34]"
  by (simp add: py_in_def U_def frame_def utf8_encode_char_def bytes_repr_def repr_byte_def
      hex_digit_def extract_chunk_str_def startswith_def endswith_def done_event_def Let_def)

text \<open>
  C5, amended: for every token \<open>t\<close> of printable ASCII characters (codes 32 to 126) in
  which every backslash is followed by the letter \<open>n\<close> and which does not hold both a
  single and a double quote, the frame of \<open>t\<close> exists and \<open>extract_chunk_str\<close> of it
  is \<open>t\<close> (line 425 turns each backslash with its \<open>n\<close> into a line feed, and
  \<open>repr\<close> writes the line feed as backslash and \<open>n\<close> again).  These are all the
  tokens that come back unchanged.
\<close>

theorem frame_roundtrip_printable:
  "(\<exists>ev. frame t = Inr ev \<and> extract_chunk_str ev = t)
     \<longleftrightarrow> list_all printable t \<and> only_backslash_n t \<and> \<not> (39 \<in> set t \<and> 34 \<in> set t)"
proof
  assume a: "list_all printable t \<and> only_backslash_n t \<and> \<not> (39 \<in> set t \<and> 34 \<in> set t)"
  have "\<forall>c \<in> set (replace_backslash_n t). c < 128"
  proof
    fix c assume "c \<in> set (replace_backslash_n t)"
    then have "c = 10 \<or> c \<in> set t" by (rule replace_backslash_n_set)
    with a show "c < 128" by (auto simp: list_all_iff printable_def)
  qed
  then have e: "utf8_encode (replace_backslash_n t) = Inr (replace_backslash_n t)"
    by (rule utf8_encode_ascii)
  from frame_extract[OF e] obtain q where
    q: "q = 39 \<or> q = 34"
    and qd: "q = (if 39 \<in> set (replace_backslash_n t) \<and> 34 \<notin> set (replace_backslash_n t)
                  then 34 else 39)"
    and f: "frame t = Inr (U ''data: '' @ [98, q]
                @ concat (map (repr_byte q) (replace_backslash_n t)) @ [q, 10, 10])"
    by blast
  have "q \<notin> set t"
    using a qd by (auto simp: replace_backslash_n_quote split: if_splits)
  with a q have "concat (map (repr_byte q) (replace_backslash_n t)) = t"
    by (intro repr_replace_backslash_n) simp_all
  with f have "frame t = Inr (U ''data: '' @ [98, q] @ t @ [q, 10, 10])" by simp
  then show "\<exists>ev. frame t = Inr ev \<and> extract_chunk_str ev = t"
    using extract_framed[OF q] by simp
next
  assume "\<exists>ev. frame t = Inr ev \<and> extract_chunk_str ev = t"
  then obtain ev where fr: "frame t = Inr ev" and ex: "extract_chunk_str ev = t" by blast
  from fr obtain bs where e: "utf8_encode (replace_backslash_n t) = Inr bs"
    by (auto simp: frame_def split: sum.splits)
  from frame_extract[OF e] fr ex obtain q where
    q: "q = 39 \<or> q = 34"
    and qd: "q = (if 39 \<in> set bs \<and> 34 \<notin> set bs then 34 else 39)"
    and t: "concat (map (repr_byte q) bs) = t"
    by auto
  have p: "list_all printable t"
    unfolding list_all_iff
  proof
    fix c assume "c \<in> set t"
    with t obtain b where "b \<in> set bs" "c \<in> set (repr_byte q b)" by auto
    with utf8_encode_bytes[OF e] q show "printable c"
      using repr_byte_printable by blast
  qed
  have "\<forall>c \<in> set (replace_backslash_n t). c < 128"
  proof
    fix c assume "c \<in> set (replace_backslash_n t)"
    then have "c = 10 \<or> c \<in> set t" by (rule replace_backslash_n_set)
    with p show "c < 128" by (auto simp: list_all_iff printable_def)
  qed
  then have "utf8_encode (replace_backslash_n t) = Inr (replace_backslash_n t)"
    by (rule utf8_encode_ascii)
  with e have bs: "bs = replace_backslash_n t" by simp
  from t bs have "length (concat (map (repr_byte q) (replace_backslash_n t))) = length t"
    by simp
  with repr_replace_length[OF q, of t] have o: "only_backslash_n t" and n: "q \<notin> set t"
    by blast+
  have "\<not> (39 \<in> set t \<and> 34 \<in> set t)"
    using n qd bs by (auto simp: replace_backslash_n_quote split: if_splits)
  with p o show "list_all printable t \<and> only_backslash_n t \<and> \<not> (39 \<in> set t \<and> 34 \<in> set t)"
    by simp
qed

theorem frame_roundtrip_printable_witness:
  "list_all printable [105, 116, 39, 115, 92, 110, 111, 107]
   \<and> only_backslash_n [105, 116, 39, 115, 92, 110, 111, 107]
   \<and> \<not> ((39::nat) \<in> set [105, 116, 39, 115, 92, 110, 111, 107]
         \<and> (34::nat) \<in> set [105, 116, 39, 115, 92, 110, 111, 107])
   \<and> frame [105, 116, 39, 115, 92, 110, 111, 107]
       = Inr (U ''data: b'' @ [34, 105, 116, 39, 115, 92, 110, 111, 107, 34, 10, 10])
   \<and> (\<exists>ev. frame [105, 116, 39, 115, 92, 110, 111, 107] = Inr ev
            \<and> extract_chunk_str ev = [105, 116, 39, 115, 92, 110, 111, 107])"
  using frame_roundtrip_printable[of "[105, 116, 39, 115, 92, 110, 111, 107]"]
  by (simp add: printable_def frame_def utf8_encode_char_def bytes_repr_def repr_byte_def U_def
      extract_chunk_str_def startswith_def endswith_def done_event_def Let_def)

section \<open>Graph operations and the scan for one pattern\<close>

lemma map_of_delete_edge:
  "map_of (delete_edge g u v) k =
     (if k = u then map_option (removeAll v) (map_of g k) else map_of g k)"
  unfolding delete_edge_def by (induction g) auto

lemma downstream_delete_edge:
  "downstream (delete_edge g u v) k =
     (if k = u then removeAll v (downstream g k) else downstream g k)"
  by (simp add: downstream_def map_of_delete_edge split: option.splits)

lemma predecessors_delete_edge:
  "set (predecessors (delete_edge g u v) x) \<subseteq> set (predecessors g x)"
  unfolding predecessors_def delete_edge_def by (induction g) auto

lemma predecessors_delete_node:
  "set (predecessors (delete_node_if_exists g n) x) \<subseteq> set (predecessors g x)"
  unfolding predecessors_def delete_node_if_exists_def by (induction g) auto

lemma map_fst_delete_edge: "map fst (delete_edge g u v) = map fst g"
  unfolding delete_edge_def by (induction g) auto

lemma graph_ok_delete_edge: "graph_ok g \<Longrightarrow> graph_ok (delete_edge g u v)"
  unfolding graph_ok_def map_fst_delete_edge
  by (auto simp: delete_edge_def list_all_iff distinct_removeAll)

lemma downstream_in_predecessors:
  "x \<in> set (downstream g n) \<Longrightarrow> n \<in> set (predecessors g x)"
proof -
  assume x: "x \<in> set (downstream g n)"
  then obtain ds where ds: "map_of g n = Some ds" "x \<in> set ds"
    by (cases "map_of g n") (auto simp: downstream_def)
  then have "(n, ds) \<in> set g" by (auto dest: map_of_SomeD)
  with ds(2) have "(n, ds) \<in> set (filter (\<lambda>kd. x \<in> set (snd kd)) g)" by simp
  then have "fst (n, ds) \<in> set (predecessors g x)"
    unfolding predecessors_def set_map by (rule imageI)
  then show ?thesis by simp
qed

lemma graph_ok_downstream_distinct: "graph_ok g \<Longrightarrow> distinct (downstream g n)"
  by (cases "map_of g n") (auto simp: graph_ok_def downstream_def list_all_iff dest!: map_of_SomeD)


lemma prune_downstreams_inv:
  "state_of (prune_downstreams w b n i (g, ds, lg)) = (g', ds', lg') \<Longrightarrow>
     set ds' \<subseteq> set ds
     \<and> (\<forall>x. set (predecessors g' x) \<subseteq> set (predecessors g x))
     \<and> map fst g' = map fst g
     \<and> (graph_ok g \<longrightarrow> graph_ok g')
     \<and> (\<forall>k. k \<noteq> n \<longrightarrow> downstream g' k = downstream g k)
     \<and> (distinct ds \<and> downstream g n = ds \<longrightarrow> downstream g' n = ds' \<and> distinct ds')"
proof (induction i arbitrary: g ds lg)
  case 0
  then show ?case by simp
next
  case (Suc i)
  show ?case
  proof (cases "i < length ds")
    case False
    with Suc.prems show ?thesis by simp
  next
    case inrange: True
    show ?thesis
    proof (cases b)
      case (VStr p)
      show ?thesis
      proof (cases "re_findall w p (ds ! i)")
        case (Inl e)
        show ?thesis
        proof (cases "e = ReError")
          case True
          with Suc.prems inrange VStr Inl
          have "state_of (prune_downstreams w b n i
                   (g, ds, lg @ [''Pattern invalid! Operation cancelled.''])) = (g', ds', lg')"
            by simp
          from Suc.IH[OF this] show ?thesis .
        next
          case False
          with Suc.prems inrange VStr Inl
          have "g' = g \<and> ds' = ds" by simp
          then show ?thesis by simp
        qed
      next
        case (Inr m)
        show ?thesis
        proof (cases m)
          case False
          with Suc.prems inrange VStr Inr
          have "state_of (prune_downstreams w b n i (g, ds, lg)) = (g', ds', lg')"
            by simp
          from Suc.IH[OF this] show ?thesis .
        next
          case True
          let ?d = "ds ! i"
          from Suc.prems inrange VStr Inr True
          have "state_of (prune_downstreams w b n i
                   (delete_edge g n ?d, remove1 ?d ds, lg)) = (g', ds', lg')"
            by (simp add: Let_def)
          from Suc.IH[OF this]
          have ih: "set ds' \<subseteq> set (remove1 ?d ds)"
            "\<forall>x. set (predecessors g' x) \<subseteq> set (predecessors (delete_edge g n ?d) x)"
            "map fst g' = map fst (delete_edge g n ?d)"
            "graph_ok (delete_edge g n ?d) \<longrightarrow> graph_ok g'"
            "\<forall>k. k \<noteq> n \<longrightarrow> downstream g' k = downstream (delete_edge g n ?d) k"
            "distinct (remove1 ?d ds) \<and> downstream (delete_edge g n ?d) n = remove1 ?d ds
               \<longrightarrow> downstream g' n = ds' \<and> distinct ds'"
            by blast+
          have 1: "set ds' \<subseteq> set ds"
            using ih(1) set_remove1_subset by fastforce
          have 2: "\<forall>x. set (predecessors g' x) \<subseteq> set (predecessors g x)"
            using ih(2) predecessors_delete_edge by blast
          have 3: "map fst g' = map fst g"
            using ih(3) by (simp add: map_fst_delete_edge)
          have 4: "graph_ok g \<longrightarrow> graph_ok g'"
            using ih(4) graph_ok_delete_edge by blast
          have 5: "\<forall>k. k \<noteq> n \<longrightarrow> downstream g' k = downstream g k"
            using ih(5) by (simp add: downstream_delete_edge)
          have 6: "distinct ds \<and> downstream g n = ds \<longrightarrow> downstream g' n = ds' \<and> distinct ds'"
            using ih(6) by (auto simp: downstream_delete_edge distinct_remove1_removeAll distinct_removeAll)
          from 1 2 3 4 5 6 show ?thesis by blast
        qed
      qed
    qed (use Suc.prems inrange in simp_all)
  qed
qed


lemma prune_downstreams_invalid:
  "\<forall>d \<in> set (take i ds). re_findall w p d = Inl ReError \<Longrightarrow> i \<le> length ds \<Longrightarrow>
     prune_downstreams w (VStr p) n i (g, ds, lg)
       = Done (g, ds, lg @ replicate i ''Pattern invalid! Operation cancelled.'')"
proof (induction i arbitrary: lg)
  case 0
  then show ?case by simp
next
  case (Suc i)
  then have inrange: "i < length ds" by simp
  have "ds ! i \<in> set (take (Suc i) ds)"
    using inrange by (simp add: take_Suc_conv_app_nth)
  with Suc.prems have n: "re_findall w p (ds ! i) = Inl ReError" by blast
  have "\<forall>d \<in> set (take i ds). re_findall w p d = Inl ReError"
    using Suc.prems(1) inrange by (simp add: take_Suc_conv_app_nth)
  from Suc.IH[OF this, of "lg @ [''Pattern invalid! Operation cancelled.'']"] inrange
  show ?case using n by (simp add: replicate_app_Cons_same)
qed

section \<open>The loop over the black list\<close>

lemma pruned_refl: "pruned n a a"
  by (cases a) (simp add: pruned_def)

lemma pruned_trans: "pruned n a b \<Longrightarrow> pruned n b c \<Longrightarrow> pruned n a c"
  by (cases a; cases b; cases c) (auto simp: pruned_def; blast)

lemma prune_downstreams_pruned:
  "state_of (prune_downstreams w b n i (g, ds, lg)) = (g', ds', lg') \<Longrightarrow> pruned n (g, ds) (g', ds')"
  using prune_downstreams_inv[of w b n i g ds lg g' ds' lg'] by (simp add: pruned_def)

lemma black_list_frame_refl: "black_list_frame n a a"
  by (cases a) (simp add: black_list_frame_def pruned_refl)

lemma black_list_frame_trans:
  assumes "black_list_frame n a b" "black_list_frame n b c"
  shows "black_list_frame n a c"
proof -
  obtain ds s where a: "a = (ds, s)" by (cases a)
  obtain ds1 s1 where b: "b = (ds1, s1)" by (cases b)
  obtain ds2 s2 where c: "c = (ds2, s2)" by (cases c)
  from assms have p: "pruned n (runtime_graph s, ds) (runtime_graph s2, ds2)"
    unfolding a b c black_list_frame_def by (auto intro: pruned_trans)
  from assms(1) obtain k1 where k1: "trace s1 = trace s @ replicate k1 (Recorded n)"
    unfolding a b black_list_frame_def by auto
  from assms(2) obtain k2 where k2: "trace s2 = trace s1 @ replicate k2 (Recorded n)"
    unfolding b c black_list_frame_def by auto
  have tr: "trace s2 = trace s @ replicate (k1 + k2) (Recorded n)"
    by (simp add: k1 k2 replicate_add)
  have sub: "set ds2 \<subseteq> set ds1"
    using assms(2) unfolding b c black_list_frame_def pruned_def by auto
  have rd: "result_dict s2 n = result_dict s n
            \<or> (ds2 = [] \<and> (\<exists>t. result_dict s2 n = Some (Streaming (FakeStream t))))"
    using assms sub unfolding a b c black_list_frame_def by auto
  show ?thesis
    using assms p tr rd unfolding a b c black_list_frame_def by auto
qed

lemma black_list_loop_frame:
  "state_of (black_list_loop w lp resp n ps ds s) = (ds', s') \<Longrightarrow> black_list_frame n (ds, s) (ds', s')"
proof (induction ps arbitrary: ds s)
  case Nil
  then show ?case by (simp add: black_list_frame_refl)
next
  case (Cons b r)
  obtain g1 ds1 lg1 where st: "state_of (prune_downstreams w b n (length ds) (runtime_graph s, ds, log s)) = (g1, ds1, lg1)"
    by (cases "state_of (prune_downstreams w b n (length ds) (runtime_graph s, ds, log s))")
  let ?s1 = "s\<lparr>runtime_graph := g1, log := lg1\<rparr>"
  have p: "pruned n (runtime_graph s, ds) (g1, ds1)"
    using st by (rule prune_downstreams_pruned)
  have f1: "black_list_frame n (ds, s) (ds1, ?s1)"
    using p by (simp add: black_list_frame_def)
  show ?case
  proof (cases "prune_downstreams w b n (length ds) (runtime_graph s, ds, log s)")
    case (Raised e x)
    with st Cons.prems have "(ds', s') = (ds1, ?s1)" by simp
    with f1 show ?thesis by simp
  next
    case (Done x)
    with st have x: "x = (g1, ds1, lg1)" by simp
    show ?thesis
    proof (cases "length ds1 = 0 \<and> stream lp")
      case False
      with Done x Cons.prems
      have "state_of (black_list_loop w lp resp n r ds1 ?s1) = (ds', s')"
        by (auto simp: Let_def)
      from Cons.IH[OF this] f1 show ?thesis by (rule black_list_frame_trans[rotated])
    next
      case True
      show ?thesis
      proof (cases "map_of resp (U ''text'')")
        case None
        with True Done x Cons.prems have "(ds', s') = (ds1, ?s1)" by (simp add: Let_def)
        with f1 show ?thesis by simp
      next
        case (Some tval)
        let ?s2 = "?s1\<lparr>result_dict := (result_dict ?s1)(n \<mapsto> Streaming (FakeStream tval)),
                       trace := trace ?s1 @ [Recorded n]\<rparr>"
        have "trace ?s2 = trace s @ replicate 1 (Recorded n)" by simp
        then have tr: "\<exists>k. trace ?s2 = trace s @ replicate k (Recorded n)" by blast
        have f2: "black_list_frame n (ds, s) (ds1, ?s2)"
          using p True tr by (simp add: black_list_frame_def)
        from True Done x Cons.prems Some
        have "state_of (black_list_loop w lp resp n r ds1 ?s2) = (ds', s')"
          by (simp add: Let_def)
        from Cons.IH[OF this] f2 show ?thesis by (rule black_list_frame_trans[rotated])
      qed
    qed
  qed
qed

lemma apply_black_list_frame:
  assumes "state_of (apply_black_list w lp resp n ds s) = (ds', s')"
  shows "black_list_frame n (ds, s) (ds', s')"
proof (cases resp)
  case (Structured d)
  show ?thesis
  proof (cases "map_of d (U ''downstream_black_list'')")
    case None
    with assms Structured show ?thesis
      by (simp add: apply_black_list_def black_list_frame_refl)
  next
    case (Some bl)
    show ?thesis
    proof (cases "py_iter bl")
      case (Inl e)
      with assms Structured Some show ?thesis
        by (simp add: apply_black_list_def black_list_frame_refl)
    next
      case (Inr ps)
      with assms Structured Some
      have "state_of (black_list_loop w lp d n ps ds s) = (ds', s')"
        by (simp add: apply_black_list_def)
      then show ?thesis by (rule black_list_loop_frame)
    qed
  qed
next
  case (Audio b)
  with assms show ?thesis by (simp add: apply_black_list_def black_list_frame_refl)
next
  case (Streaming g)
  with assms show ?thesis by (simp add: apply_black_list_def black_list_frame_refl)
qed

lemmas sched_defs = schedule_def initial_state_def ind_nodes_def predecessors_def downstream_def
  start_created_def execute_def valid_batch_def remaining_def handle_done_def apply_black_list_def
  delete_edge_def prune_unreachable_def all_downstreams_def delete_node_if_exists_def
  truthy_token_def pending_update_def Let_def

lemmas example_defs = example_findall_def py_in_def U_def no_metrics_def streaming_on_def
  streaming_off_def plain_world_def fan_in_def guard_world_def veto_def guard_graph_def
  five_tokens_def stitch_world_def echo_text_def no_text_def stitch_graph_def done_event_def

section \<open>Topological execution\<close>

lemma topological_iff:
  "topological s \<longleftrightarrow>
     (\<forall>i v u. i < length (trace s) \<longrightarrow> trace s ! i = Dispatched v \<longrightarrow>
        u \<in> set (predecessors (runtime_graph s) v) \<longrightarrow> Recorded u \<in> set (take i (trace s)))"
  unfolding topological_def list_all_iff
  by (auto split: event.splits)

lemma topological_shrink:
  assumes "topological s"
    and "\<forall>x. set (predecessors (runtime_graph s') x) \<subseteq> set (predecessors (runtime_graph s) x)"
    and "trace s' = trace s @ ext"
    and "\<forall>e \<in> set ext. \<exists>u. e = Recorded u"
  shows "topological s'"
  unfolding topological_iff
proof (intro allI impI)
  fix i v u
  assume i: "i < length (trace s')" and d: "trace s' ! i = Dispatched v"
    and u: "u \<in> set (predecessors (runtime_graph s') v)"
  have old: "i < length (trace s)"
  proof (rule ccontr)
    assume "\<not> i < length (trace s)"
    then have "trace s' ! i = ext ! (i - length (trace s))" "i - length (trace s) < length ext"
      using i assms(3) by (auto simp: nth_append)
    then have "trace s' ! i \<in> set ext" by simp
    with assms(4) d show False by auto
  qed
  then have "trace s ! i = Dispatched v" using d assms(3) by (simp add: nth_append)
  moreover have "u \<in> set (predecessors (runtime_graph s) v)" using u assms(2) by blast
  ultimately have "Recorded u \<in> set (take i (trace s))"
    using assms(1) old unfolding topological_iff by blast
  then show "Recorded u \<in> set (take i (trace s'))"
    using old assms(3) by simp
qed

lemma topological_dispatch:
  assumes "topological s"
    and "\<forall>u \<in> set (predecessors (runtime_graph s) v). Recorded u \<in> set (trace s)"
    and "runtime_graph s' = runtime_graph s"
    and "trace s' = trace s @ [Dispatched v]"
  shows "topological s'"
  unfolding topological_iff
proof (intro allI impI)
  fix i x u
  assume i: "i < length (trace s')" and d: "trace s' ! i = Dispatched x"
    and u: "u \<in> set (predecessors (runtime_graph s') x)"
  show "Recorded u \<in> set (take i (trace s'))"
  proof (cases "i < length (trace s)")
    case True
    then have "trace s ! i = Dispatched x" using d assms(4) by (simp add: nth_append)
    then have "Recorded u \<in> set (take i (trace s))"
      using assms(1) True u assms(3) unfolding topological_iff by auto
    then show ?thesis using True assms(4) by simp
  next
    case False
    then have il: "i = length (trace s)" using i assms(4) by simp
    then have "x = v" using d assms(4) by simp
    then show ?thesis using u assms(2,3,4) il by simp
  qed
qed

lemma ready_scan_topological:
  "topological s \<and> recorded_results s \<Longrightarrow>
     topological (state_of (ready_scan ds s)) \<and> recorded_results (state_of (ready_scan ds s))"
proof (induction ds arbitrary: s)
  case Nil
  then show ?case by simp
next
  case (Cons d r)
  let ?ps = "predecessors (runtime_graph s) d"
  show ?case
  proof (cases "list_all (\<lambda>i. result_dict s i \<noteq> None) ?ps")
    case False
    then have "ready_scan (d # r) s = ready_scan r s" by simp
    then show ?thesis using Cons.IH[OF Cons.prems] by simp
  next
    case True
    show ?thesis
    proof (cases "process_outputs ?ps (result_dict s) []")
      case (Inl e)
      then have "ready_scan (d # r) s = Raised e s" using True by simp
      then show ?thesis using Cons.prems by simp
    next
      case (Inr inputs)
      define s' where "s' = s\<lparr>heap := (heap s)(next_addr s := inputs), next_addr := Suc (next_addr s),
                    created := created s @ [(d, next_addr s)],
                    trace := trace s @ [Dispatched d]\<rparr>"
      have eq: "ready_scan (d # r) s = ready_scan r s'"
        using True Inr by (simp add: s'_def)
      have f: "runtime_graph s' = runtime_graph s" "trace s' = trace s @ [Dispatched d]"
        "result_dict s' = result_dict s"
        by (simp_all add: s'_def)
      have "\<forall>u \<in> set ?ps. result_dict s u \<noteq> None"
        using True by (simp add: list_all_iff)
      then have rec: "\<forall>u \<in> set ?ps. Recorded u \<in> set (trace s)"
        using Cons.prems unfolding recorded_results_def by blast
      have t: "topological s'"
        using Cons.prems rec f(1,2) by (blast intro: topological_dispatch)
      have r: "recorded_results s'"
        using Cons.prems unfolding recorded_results_def f by simp
      from t r have "topological s' \<and> recorded_results s'" ..
      from Cons.IH[OF this] show ?thesis unfolding eq .
    qed
  qed
qed

lemma handle_done_topological:
  assumes "topological s \<and> recorded_results s"
  shows "topological (state_of (handle_done w lp t s)) \<and> recorded_results (state_of (handle_done w lp t s))"
proof (cases t)
  case (Inl e)
  with assms show ?thesis by (simp add: handle_done_def)
next
  case (Inr rn)
  obtain resp n where rn: "rn = (resp, n)" by (cases rn)
  let ?s1 = "s\<lparr>result_dict := (result_dict s)(n \<mapsto> resp), trace := trace s @ [Recorded n]\<rparr>"
  obtain ds' s2 where ab: "state_of (apply_black_list w lp resp n (downstream (runtime_graph ?s1) n) ?s1) = (ds', s2)"
    by (cases "state_of (apply_black_list w lp resp n (downstream (runtime_graph ?s1) n) ?s1)")
  from apply_black_list_frame[OF ab]
  have fr: "black_list_frame n (downstream (runtime_graph ?s1) n, ?s1) (ds', s2)" .
  then obtain k where k: "trace s2 = trace ?s1 @ replicate k (Recorded n)"
    unfolding black_list_frame_def by auto
  have sh: "\<forall>x. set (predecessors (runtime_graph s2) x) \<subseteq> set (predecessors (runtime_graph s) x)"
    using fr unfolding black_list_frame_def pruned_def by auto
  have tr: "trace s2 = trace s @ (Recorded n # replicate k (Recorded n))"
    using k by simp
  have t2: "topological s2"
    using assms sh tr by (intro topological_shrink[of s s2 "Recorded n # replicate k (Recorded n)"]) auto
  have rdn: "result_dict s2 n \<noteq> None"
    using fr unfolding black_list_frame_def by auto
  have rdo: "\<forall>m. m \<noteq> n \<longrightarrow> result_dict s2 m = result_dict s m"
    using fr unfolding black_list_frame_def by auto
  have r2: "recorded_results s2"
    unfolding recorded_results_def
  proof (intro allI impI)
    fix u assume u: "result_dict s2 u \<noteq> None"
    show "Recorded u \<in> set (trace s2)"
    proof (cases "u = n")
      case True
      then show ?thesis using tr by simp
    next
      case False
      then have "result_dict s u \<noteq> None" using u rdo by simp
      then have "Recorded u \<in> set (trace s)" using assms by (simp add: recorded_results_def)
      then show ?thesis using tr by simp
    qed
  qed
  show ?thesis
  proof (cases "apply_black_list w lp resp n (downstream (runtime_graph ?s1) n) ?s1")
    case (Raised e x)
    with ab have "x = (ds', s2)" by simp
    with Raised Inr rn t2 r2 show ?thesis by (simp add: handle_done_def Let_def)
  next
    case (Done x)
    with ab have "x = (ds', s2)" by simp
    with Done Inr rn have "handle_done w lp t s = ready_scan ds' s2"
      by (simp add: handle_done_def Let_def)
    then show ?thesis using ready_scan_topological[of s2 ds'] t2 r2 by simp
  qed
qed

lemma handle_batch_topological:
  "topological s \<and> recorded_results s \<Longrightarrow>
     topological (state_of (handle_batch w lp ts s)) \<and> recorded_results (state_of (handle_batch w lp ts s))"
proof (induction ts arbitrary: s)
  case Nil
  then show ?case by simp
next
  case (Cons t ts)
  have h: "topological (state_of (handle_done w lp t s)) \<and> recorded_results (state_of (handle_done w lp t s))"
    using Cons.prems by (rule handle_done_topological)
  show ?case
  proof (cases "handle_done w lp t s")
    case (Raised e s')
    with h show ?thesis by simp
  next
    case (Done s')
    with h Cons.IH[of s'] show ?thesis by simp
  qed
qed

lemma start_tasks_frame:
  "result_dict (start_tasks w lp ts s) = result_dict s
   \<and> runtime_graph (start_tasks w lp ts s) = runtime_graph s
   \<and> created (start_tasks w lp ts s) = created s
   \<and> next_addr (start_tasks w lp ts s) = next_addr s
   \<and> trace (start_tasks w lp ts s) = trace s
   \<and> log (start_tasks w lp ts s) = log s
   \<and> map fst (running (start_tasks w lp ts s)) = map fst (running s) @ map fst ts"
proof (induction ts arbitrary: s)
  case Nil
  then show ?case by simp
next
  case (Cons t ts)
  obtain n a where t: "t = (n, a)" by (cases t)
  obtain h' out where e: "execute w lp (runtime_graph s) (heap s) n a = (h', out)"
    by (cases "execute w lp (runtime_graph s) (heap s) n a")
  show ?case
    using Cons.IH[of "s\<lparr>heap := h', running := running s @ [(n, out)]\<rparr>"]
    by (simp add: t e)
qed

lemma start_created_frame:
  "result_dict (start_created w lp s) = result_dict s
   \<and> runtime_graph (start_created w lp s) = runtime_graph s
   \<and> created (start_created w lp s) = []
   \<and> next_addr (start_created w lp s) = next_addr s
   \<and> trace (start_created w lp s) = trace s
   \<and> log (start_created w lp s) = log s
   \<and> map fst (running (start_created w lp s)) = map fst (running s) @ map fst (created s)"
  using start_tasks_frame[of w lp "created s" "s\<lparr>created := []\<rparr>"]
  by (simp add: start_created_def)

lemma topological_cong:
  "trace s' = trace s \<Longrightarrow> runtime_graph s' = runtime_graph s \<Longrightarrow> topological s' = topological s"
  by (simp add: topological_iff)

lemma recorded_results_cong:
  "trace s' = trace s \<Longrightarrow> result_dict s' = result_dict s \<Longrightarrow> recorded_results s' = recorded_results s"
  by (simp add: recorded_results_def)

lemma schedule_loop_topological:
  "topological s \<and> recorded_results s \<Longrightarrow> schedule_loop w lp bs s = Some out \<Longrightarrow>
     topological (state_of out) \<and> recorded_results (state_of out)"
proof (induction bs arbitrary: s)
  case Nil
  then show ?case by (auto split: if_splits)
next
  case (Cons b bs)
  show ?case
  proof (cases "created s = [] \<and> running s = []")
    case True
    with Cons.prems show ?thesis by auto
  next
    case False
    let ?s1 = "start_created w lp s"
    let ?s1' = "?s1\<lparr>running := remaining b (running ?s1)\<rparr>"
    have v: "valid_batch b (running ?s1)"
      using Cons.prems(2) False by (auto simp: Let_def split: if_splits)
    have "topological ?s1' \<and> recorded_results ?s1'"
      using Cons.prems(1) start_created_frame[of w lp s]
      by (simp add: topological_cong[of ?s1' s] recorded_results_cong[of ?s1' s])
    then have hb: "topological (state_of (handle_batch w lp (map (\<lambda>i. snd (running ?s1 ! i)) b) ?s1'))
        \<and> recorded_results (state_of (handle_batch w lp (map (\<lambda>i. snd (running ?s1 ! i)) b) ?s1'))"
      by (rule handle_batch_topological)
    show ?thesis
    proof (cases "handle_batch w lp (map (\<lambda>i. snd (running ?s1 ! i)) b) ?s1'")
      case (Raised e s2)
      with Cons.prems(2) False v have "out = Raised e s2" by (simp add: Let_def)
      with hb Raised show ?thesis by simp
    next
      case (Done s2)
      with Cons.prems(2) False v have "schedule_loop w lp bs s2 = Some out" by (simp add: Let_def)
      with hb Done Cons.IH[of s2] show ?thesis by simp
    qed
  qed
qed

lemma ind_nodes_no_predecessors: "v \<in> set (ind_nodes g) \<Longrightarrow> predecessors g v = []"
  by (simp add: ind_nodes_def)

lemma initial_state_topological:
  "topological (initial_state g inp) \<and> recorded_results (initial_state g inp)"
proof -
  have "topological (initial_state g inp)"
    unfolding topological_iff
  proof (intro allI impI)
    fix i v u
    assume i: "i < length (trace (initial_state g inp))"
      and d: "trace (initial_state g inp) ! i = Dispatched v"
      and u: "u \<in> set (predecessors (runtime_graph (initial_state g inp)) v)"
    from i d have "v = ind_nodes g ! i" "i < length (ind_nodes g)"
      by (simp_all add: initial_state_def)
    then have "v \<in> set (ind_nodes g)" by simp
    then have "predecessors g v = []" by (rule ind_nodes_no_predecessors)
    with u show "Recorded u \<in> set (take i (trace (initial_state g inp)))"
      by (simp add: initial_state_def)
  qed
  moreover have "recorded_results (initial_state g inp)"
    by (simp add: recorded_results_def initial_state_def)
  ultimately show ?thesis ..
qed

lemma fold_delete_node_predecessors:
  "set (predecessors (fold (\<lambda>n g'. if P n then delete_node_if_exists g' n else g') ns g) x)
     \<subseteq> set (predecessors g x)"
proof (induction ns arbitrary: g)
  case Nil
  then show ?case by simp
next
  case (Cons n ns)
  have "set (predecessors (if P n then delete_node_if_exists g n else g) x) \<subseteq> set (predecessors g x)"
    using predecessors_delete_node[of g n x] by simp
  with Cons.IH[of "if P n then delete_node_if_exists g n else g"] show ?case
    by (cases "P n") auto
qed

lemma prune_unreachable_predecessors:
  "set (predecessors (prune_unreachable roots g) x) \<subseteq> set (predecessors g x)"
  unfolding prune_unreachable_def Let_def by (rule fold_delete_node_predecessors)

text \<open>
  C1: in every state in which \<open>schedule\<close> returns or raises, whatever the order of
  the completions, each task for a node \<open>v\<close> was created only after the result of
  every node \<open>u\<close> that is a predecessor of \<open>v\<close> in the runtime graph had been
  recorded in the result table.
\<close>

theorem schedule_topological:
  assumes "schedule w g initial_inputs lp batches m = Some (m', out)"
  shows "topological (state_of out)"
proof -
  from assms obtain r where r: "schedule_loop w lp batches (initial_state g initial_inputs) = Some r"
    by (cases "schedule_loop w lp batches (initial_state g initial_inputs)")
       (simp_all add: schedule_def Let_def)
  have t: "topological (state_of r)"
    using schedule_loop_topological[OF initial_state_topological r] by simp
  show ?thesis
  proof (cases r)
    case (Raised e s)
    with assms r have "out = Raised e s" by (simp add: schedule_def Let_def)
    with t Raised show ?thesis by simp
  next
    case (Done s)
    with assms r have out: "out = Done (s\<lparr>runtime_graph := prune_unreachable (ind_nodes g) (runtime_graph s)\<rparr>)"
      by (simp add: schedule_def Let_def)
    have ts: "topological s" using t Done by simp
    have "topological (s\<lparr>runtime_graph := prune_unreachable (ind_nodes g) (runtime_graph s)\<rparr>)"
      by (rule topological_shrink[OF ts, where ext = "[]"])
         (simp_all add: prune_unreachable_predecessors)
    with out show ?thesis by simp
  qed
qed

lemma fan_in_run:
  "map_option (\<lambda>mo. (raised (snd mo), trace (state_of (snd mo))))
     (schedule plain_world fan_in [] streaming_off [[1, 0], [0]] no_metrics)
   = Some (None, [Dispatched (U ''A''), Dispatched (U ''B''), Recorded (U ''B''),
                  Recorded (U ''A''), Dispatched (U ''C''), Recorded (U ''C'')])"
  by code_simp

theorem schedule_topological_witness:
  "\<exists>m' out. schedule plain_world fan_in [] streaming_off [[1, 0], [0]] no_metrics = Some (m', out)
     \<and> trace (state_of out)
         = [Dispatched (U ''A''), Dispatched (U ''B''), Recorded (U ''B''),
            Recorded (U ''A''), Dispatched (U ''C''), Recorded (U ''C'')]
     \<and> topological (state_of out)"
proof -
  from fan_in_run obtain m' out where
    s: "schedule plain_world fan_in [] streaming_off [[1, 0], [0]] no_metrics = Some (m', out)"
    and t: "trace (state_of out)
         = [Dispatched (U ''A''), Dispatched (U ''B''), Recorded (U ''B''),
            Recorded (U ''A''), Dispatched (U ''C''), Recorded (U ''C'')]"
    by (cases "schedule plain_world fan_in [] streaming_off [[1, 0], [0]] no_metrics") auto
  from schedule_topological[OF s] s t show ?thesis by blast
qed

section \<open>Single dispatch\<close>

lemma dispatched_nodes_append:
  "dispatched_nodes (xs @ ys) = dispatched_nodes xs @ dispatched_nodes ys"
  by (induction xs rule: dispatched_nodes.induct) auto

lemma dispatched_nodes_recorded: "dispatched_nodes (replicate k (Recorded n)) = []"
  by (induction k) auto

lemma dispatched_nodes_map: "dispatched_nodes (map Dispatched ns) = ns"
  by (induction ns) auto

lemma process_outputs_ok:
  "process_outputs ps rd acc = Inr d \<Longrightarrow> u \<in> set ps \<Longrightarrow>
     \<exists>r. rd u = Some r \<and> \<not> is_streaming r"
proof (induction ps arbitrary: acc)
  case Nil
  then show ?case by simp
next
  case (Cons p ps)
  show ?case
  proof (cases "rd p")
    case None
    with Cons.prems show ?thesis by simp
  next
    case (Some r)
    show ?thesis
    proof (cases r)
      case (Structured x)
      with Some Cons.prems have "process_outputs ps rd (dict_update acc x) = Inr d" by simp
      from Cons.IH[OF this] Cons.prems(2) Some Structured show ?thesis by auto
    next
      case (Audio b)
      with Some Cons.prems have "process_outputs ps rd acc = Inr d"
        by (cases "b = []") simp_all
      from Cons.IH[OF this] Cons.prems(2) Some Audio show ?thesis by auto
    next
      case (Streaming g)
      with Some Cons.prems show ?thesis by simp
    qed
  qed
qed

lemma sd_inv_weaken: "sd_inv (c # fl) s \<Longrightarrow> sd_inv fl s"
  unfolding sd_inv_def by auto

lemma sd_inv_empty: "sd_inv fl s \<Longrightarrow> sd_inv [] s"
  by (induction fl) (auto dest: sd_inv_weaken)

lemma sd_inv_step:
  assumes inv: "sd_inv (c # fl) s"
    and tr: "dispatched_nodes (trace s') = dispatched_nodes (trace s)"
    and fl: "inflight s' = inflight s"
    and ru: "running s' = running s"
    and sh: "\<forall>x. set (predecessors (runtime_graph s') x) \<subseteq> set (predecessors (runtime_graph s) x)"
    and ok: "graph_ok (runtime_graph s) \<longrightarrow> graph_ok (runtime_graph s')"
    and rd: "\<forall>m r. result_dict s' m = Some r \<and> \<not> is_streaming r \<longrightarrow>
               m = c \<or> result_dict s m = Some r"
  shows "sd_inv fl s'"
proof -
  let ?D = "dispatched_nodes (trace s)"
  from inv have a: "distinct ?D"
    and b1: "distinct (c # fl @ inflight s)"
    and b2: "set (c # fl @ inflight s) \<subseteq> set ?D"
    and c: "\<forall>m r. result_dict s m = Some r \<and> \<not> is_streaming r \<longrightarrow>
               m \<in> set ?D \<and> m \<notin> set (c # fl @ inflight s)"
    and d: "\<forall>x \<in> set ?D. \<forall>u \<in> set (predecessors (runtime_graph s) x).
               u \<in> set ?D \<and> u \<notin> set (c # fl @ inflight s)"
    and e: "list_all own_result (running s)"
    and f: "graph_ok (runtime_graph s)"
    unfolding sd_inv_def by simp_all
  have c': "\<forall>m r. result_dict s' m = Some r \<and> \<not> is_streaming r \<longrightarrow>
               m \<in> set ?D \<and> m \<notin> set (fl @ inflight s)"
  proof (intro allI impI)
    fix m r assume h: "result_dict s' m = Some r \<and> \<not> is_streaming r"
    with rd have "m = c \<or> result_dict s m = Some r" by blast
    then show "m \<in> set ?D \<and> m \<notin> set (fl @ inflight s)"
    proof
      assume "m = c"
      with b1 b2 show ?thesis by auto
    next
      assume "result_dict s m = Some r"
      with h c have "m \<in> set ?D \<and> m \<notin> set (c # fl @ inflight s)" by blast
      then show ?thesis by auto
    qed
  qed
  have d': "\<forall>x \<in> set ?D. \<forall>u \<in> set (predecessors (runtime_graph s') x).
               u \<in> set ?D \<and> u \<notin> set (fl @ inflight s)"
  proof (intro ballI)
    fix x u assume x: "x \<in> set ?D" and u: "u \<in> set (predecessors (runtime_graph s') x)"
    from u sh have "u \<in> set (predecessors (runtime_graph s) x)" by blast
    with d x have "u \<in> set ?D \<and> u \<notin> set (c # fl @ inflight s)" by blast
    then show "u \<in> set ?D \<and> u \<notin> set (fl @ inflight s)" by auto
  qed
  have b1': "distinct (fl @ inflight s)" using b1 by simp
  have b2': "set (fl @ inflight s) \<subseteq> set ?D" using b2 by simp
  show ?thesis
    unfolding sd_inv_def tr fl ru
    using a b1' b2' c' d' e f ok by blast
qed

lemma process_outputs_streaming:
  "m \<in> set ps \<Longrightarrow> rd m = Some r \<Longrightarrow> is_streaming r \<Longrightarrow>
     \<exists>e. process_outputs ps rd acc = Inl e"
proof (rule ccontr)
  assume m: "m \<in> set ps" and r: "rd m = Some r" and st: "is_streaming r"
    and "\<nexists>e. process_outputs ps rd acc = Inl e"
  then obtain d where "process_outputs ps rd acc = Inr d"
    by (cases "process_outputs ps rd acc") auto
  from process_outputs_ok[OF this m] r st show False by auto
qed

lemma ready_scan_blocked:
  assumes "result_dict s m = Some r" "is_streaming r"
    and "\<forall>x \<in> set ds. m \<in> set (predecessors (runtime_graph s) x)"
  shows "state_of (ready_scan ds s) = s"
  using assms(3)
proof (induction ds)
  case Nil
  then show ?case by simp
next
  case (Cons x xs)
  let ?ps = "predecessors (runtime_graph s) x"
  have m: "m \<in> set ?ps" using Cons.prems by simp
  obtain e where e: "process_outputs ?ps (result_dict s) [] = Inl e"
    using process_outputs_streaming[of m ?ps "result_dict s" r "[]"] m assms(1,2) by blast
  show ?case
  proof (cases "list_all (\<lambda>i. result_dict s i \<noteq> None) ?ps")
    case True
    then have "ready_scan (x # xs) s = Raised e s" using e by simp
    then show ?thesis by simp
  next
    case False
    then have "ready_scan (x # xs) s = ready_scan xs s" by simp
    then show ?thesis using Cons by simp
  qed
qed

lemma sd_inv_dispatch:
  assumes inv: "sd_inv fl s"
    and new: "x \<notin> set (dispatched_nodes (trace s))"
    and ready: "\<forall>u \<in> set (predecessors (runtime_graph s) x). \<exists>r. result_dict s u = Some r \<and> \<not> is_streaming r"
    and s': "s' = s\<lparr>heap := h, next_addr := a, created := created s @ [(x, b)],
                     trace := trace s @ [Dispatched x]\<rparr>"
  shows "sd_inv fl s'"
proof -
  let ?D = "dispatched_nodes (trace s)"
  from inv have a: "distinct ?D"
    and b1: "distinct (fl @ inflight s)"
    and b2: "set (fl @ inflight s) \<subseteq> set ?D"
    and c: "\<forall>m r. result_dict s m = Some r \<and> \<not> is_streaming r \<longrightarrow>
               m \<in> set ?D \<and> m \<notin> set (fl @ inflight s)"
    and d: "\<forall>y \<in> set ?D. \<forall>u \<in> set (predecessors (runtime_graph s) y).
               u \<in> set ?D \<and> u \<notin> set (fl @ inflight s)"
    and e: "list_all own_result (running s)"
    and f: "graph_ok (runtime_graph s)"
    unfolding sd_inv_def by simp_all
  have D': "dispatched_nodes (trace s') = ?D @ [x]"
    by (simp add: s' dispatched_nodes_append)
  have F': "fl @ inflight s' = (fl @ inflight s) @ [x]"
    by (simp add: s' inflight_def)
  have g': "runtime_graph s' = runtime_graph s" "result_dict s' = result_dict s"
    "running s' = running s"
    by (simp_all add: s')
  have xf: "x \<notin> set (fl @ inflight s)" using new b2 by blast
  have a': "distinct (?D @ [x])" using a new by simp
  have b1': "distinct ((fl @ inflight s) @ [x])" using b1 xf by simp
  have b2': "set ((fl @ inflight s) @ [x]) \<subseteq> set (?D @ [x])" using b2 by auto
  have c': "\<forall>m r. result_dict s m = Some r \<and> \<not> is_streaming r \<longrightarrow>
               m \<in> set (?D @ [x]) \<and> m \<notin> set ((fl @ inflight s) @ [x])"
  proof (intro allI impI)
    fix m r assume h: "result_dict s m = Some r \<and> \<not> is_streaming r"
    with c have "m \<in> set ?D \<and> m \<notin> set (fl @ inflight s)" by blast
    moreover from this new have "m \<noteq> x" by blast
    ultimately show "m \<in> set (?D @ [x]) \<and> m \<notin> set ((fl @ inflight s) @ [x])" by simp
  qed
  have d': "\<forall>y \<in> set (?D @ [x]). \<forall>u \<in> set (predecessors (runtime_graph s) y).
               u \<in> set (?D @ [x]) \<and> u \<notin> set ((fl @ inflight s) @ [x])"
  proof (intro ballI)
    fix y u assume y: "y \<in> set (?D @ [x])" and u: "u \<in> set (predecessors (runtime_graph s) y)"
    have "u \<in> set ?D \<and> u \<notin> set (fl @ inflight s)"
    proof (cases "y = x")
      case True
      with u ready obtain r where "result_dict s u = Some r \<and> \<not> is_streaming r" by blast
      with c show ?thesis by blast
    next
      case False
      with y have "y \<in> set ?D" by simp
      with d u show ?thesis by blast
    qed
    moreover from this new have "u \<noteq> x" by blast
    ultimately show "u \<in> set (?D @ [x]) \<and> u \<notin> set ((fl @ inflight s) @ [x])" by simp
  qed
  show ?thesis
    unfolding sd_inv_def D' F' g'
    using a' b1' b2' c' d' e f by blast
qed

lemma ready_scan_sd:
  "sd_inv fl s \<Longrightarrow> distinct ds \<Longrightarrow> \<forall>x \<in> set ds. x \<notin> set (dispatched_nodes (trace s)) \<Longrightarrow>
     sd_inv fl (state_of (ready_scan ds s))"
proof (induction ds arbitrary: s)
  case Nil
  then show ?case by simp
next
  case (Cons x xs)
  let ?ps = "predecessors (runtime_graph s) x"
  have dxs: "distinct xs" and xn: "x \<notin> set xs" using Cons.prems(2) by simp_all
  show ?case
  proof (cases "list_all (\<lambda>i. result_dict s i \<noteq> None) ?ps")
    case False
    then have "ready_scan (x # xs) s = ready_scan xs s" by simp
    moreover have "sd_inv fl (state_of (ready_scan xs s))"
      using Cons.IH[OF Cons.prems(1) dxs] Cons.prems(3) by simp
    ultimately show ?thesis by simp
  next
    case True
    show ?thesis
    proof (cases "process_outputs ?ps (result_dict s) []")
      case (Inl e)
      then have "ready_scan (x # xs) s = Raised e s" using True by simp
      then show ?thesis using Cons.prems(1) by simp
    next
      case (Inr inputs)
      define s' where "s' = s\<lparr>heap := (heap s)(next_addr s := inputs), next_addr := Suc (next_addr s),
                    created := created s @ [(x, next_addr s)],
                    trace := trace s @ [Dispatched x]\<rparr>"
      have eq: "ready_scan (x # xs) s = ready_scan xs s'"
        using True Inr by (simp add: s'_def)
      have ready: "\<forall>u \<in> set ?ps. \<exists>r. result_dict s u = Some r \<and> \<not> is_streaming r"
        using process_outputs_ok[OF Inr] by blast
      have new: "x \<notin> set (dispatched_nodes (trace s))" using Cons.prems(3) by simp
      have inv': "sd_inv fl s'"
        using Cons.prems(1) new ready s'_def by (rule sd_inv_dispatch)
      have "dispatched_nodes (trace s') = dispatched_nodes (trace s) @ [x]"
        by (simp add: s'_def dispatched_nodes_append)
      then have rest: "\<forall>y \<in> set xs. y \<notin> set (dispatched_nodes (trace s'))"
        using Cons.prems(3) xn by auto
      from Cons.IH[OF inv' dxs rest] show ?thesis unfolding eq .
    qed
  qed
qed

lemma handle_done_sd:
  assumes inv: "sd_inv (c # fl) s" and own: "own_result (c, t)"
  shows "sd_inv fl (state_of (handle_done w lp t s))"
proof (cases t)
  case (Inl e)
  then have "handle_done w lp t s = Raised e s" by (simp add: handle_done_def)
  then show ?thesis using inv by (simp add: sd_inv_weaken)
next
  case (Inr rn)
  obtain resp n where rn: "rn = (resp, n)" by (cases rn)
  define s1 where "s1 = s\<lparr>result_dict := (result_dict s)(n \<mapsto> resp), trace := trace s @ [Recorded n]\<rparr>"
  define ds where "ds = downstream (runtime_graph s1) n"
  obtain ds' s2 where ab: "state_of (apply_black_list w lp resp n ds s1) = (ds', s2)"
    by (cases "state_of (apply_black_list w lp resp n ds s1)")
  have hd: "handle_done w lp t s =
      (case apply_black_list w lp resp n ds s1 of
         Raised e (ds, s2) \<Rightarrow> Raised e s2 | Done (ds, s2) \<Rightarrow> ready_scan ds s2)"
    by (simp add: handle_done_def Inr rn s1_def ds_def Let_def)
  have s1f: "runtime_graph s1 = runtime_graph s" "created s1 = created s" "running s1 = running s"
    "trace s1 = trace s @ [Recorded n]" "result_dict s1 = (result_dict s)(n \<mapsto> resp)"
    by (simp_all add: s1_def)
  from apply_black_list_frame[OF ab]
  have fr: "black_list_frame n (ds, s1) (ds', s2)" .
  then have pr: "pruned n (runtime_graph s, ds) (runtime_graph s2, ds')"
    and cr: "created s2 = created s" and ru: "running s2 = running s"
    and rdo: "\<forall>m. m \<noteq> n \<longrightarrow> result_dict s2 m = result_dict s m"
    and rdn: "result_dict s2 n = Some resp
               \<or> (ds' = [] \<and> (\<exists>t. result_dict s2 n = Some (Streaming (FakeStream t))))"
    unfolding black_list_frame_def by (simp_all add: s1f)
  from fr obtain k where "trace s2 = trace s1 @ replicate k (Recorded n)"
    unfolding black_list_frame_def by auto
  then have tr: "dispatched_nodes (trace s2) = dispatched_nodes (trace s)"
    by (simp add: s1f dispatched_nodes_append dispatched_nodes_recorded)
  have fl: "inflight s2 = inflight s" by (simp add: inflight_def cr ru)
  from pr have sh: "\<forall>x. set (predecessors (runtime_graph s2) x) \<subseteq> set (predecessors (runtime_graph s) x)"
    and ok: "graph_ok (runtime_graph s) \<longrightarrow> graph_ok (runtime_graph s2)"
    and sync: "distinct ds \<and> downstream (runtime_graph s) n = ds \<longrightarrow>
                 downstream (runtime_graph s2) n = ds' \<and> distinct ds'"
    unfolding pruned_def by simp_all
  from own Inr rn have own': "is_streaming resp \<or> n = c" by (simp add: own_result_def)
  have rd: "\<forall>m r. result_dict s2 m = Some r \<and> \<not> is_streaming r \<longrightarrow>
               m = c \<or> result_dict s m = Some r"
  proof (intro allI impI)
    fix m r assume h: "result_dict s2 m = Some r \<and> \<not> is_streaming r"
    show "m = c \<or> result_dict s m = Some r"
    proof (cases "m = n")
      case False
      with rdo h show ?thesis by simp
    next
      case True
      with rdn h have "r = resp" by auto
      with h own' True show ?thesis by auto
    qed
  qed
  have inv2: "sd_inv fl s2"
    using inv tr fl ru sh ok rd by (rule sd_inv_step)
  have gok: "graph_ok (runtime_graph s)" using inv by (simp add: sd_inv_def)
  have dds: "distinct ds" unfolding ds_def s1f using gok by (rule graph_ok_downstream_distinct)
  have sync': "downstream (runtime_graph s2) n = ds'" "distinct ds'"
    using sync dds by (simp_all add: ds_def s1f)
  show ?thesis
  proof (cases "apply_black_list w lp resp n ds s1")
    case (Raised e x)
    with ab have "x = (ds', s2)" by simp
    with Raised hd have "handle_done w lp t s = Raised e s2" by simp
    then show ?thesis using inv2 by simp
  next
    case (Done x)
    with ab have "x = (ds', s2)" by simp
    with Done hd have eq: "handle_done w lp t s = ready_scan ds' s2" by simp
    show ?thesis
    proof (cases "is_streaming resp")
      case True
      then obtain g where "resp = Streaming g" by (cases resp) auto
      then have "apply_black_list w lp resp n ds s1 = Done (ds, s1)"
        by (simp add: apply_black_list_def)
      with ab have e2: "ds' = ds" "s2 = s1" by simp_all
      have r1: "result_dict s2 n = Some resp" by (simp add: e2 s1f)
      have "\<forall>x \<in> set ds'. n \<in> set (predecessors (runtime_graph s2) x)"
        using sync'(1) downstream_in_predecessors by blast
      from ready_scan_blocked[OF r1 True this]
      show ?thesis using inv2 eq by simp
    next
      case False
      with own' have nc: "n = c" by simp
      let ?D = "dispatched_nodes (trace s)"
      from inv have d: "\<forall>x \<in> set ?D. \<forall>u \<in> set (predecessors (runtime_graph s) x).
               u \<in> set ?D \<and> u \<notin> set ((c # fl) @ inflight s)"
        unfolding sd_inv_def by blast
      have "\<forall>x \<in> set ds'. x \<notin> set (dispatched_nodes (trace s2))"
      proof
        fix x assume x: "x \<in> set ds'"
        then have "x \<in> set (downstream (runtime_graph s2) c)" using sync'(1) nc by simp
        then have "c \<in> set (predecessors (runtime_graph s2) x)"
          by (rule downstream_in_predecessors)
        with sh have cp: "c \<in> set (predecessors (runtime_graph s) x)" by blast
        show "x \<notin> set (dispatched_nodes (trace s2))"
        proof
          assume "x \<in> set (dispatched_nodes (trace s2))"
          then have "x \<in> set ?D" by (simp add: tr)
          with d cp have "c \<notin> set ((c # fl) @ inflight s)" by blast
          then show False by simp
        qed
      qed
      from ready_scan_sd[OF inv2 sync'(2) this] show ?thesis using eq by simp
    qed
  qed
qed

lemma handle_batch_sd:
  "sd_inv (map fst dts) s \<Longrightarrow> list_all own_result dts \<Longrightarrow>
     sd_inv [] (state_of (handle_batch w lp (map snd dts) s))"
proof (induction dts arbitrary: s)
  case Nil
  then show ?case by simp
next
  case (Cons dt dts)
  obtain c t where dt: "dt = (c, t)" by (cases dt)
  have own: "own_result (c, t)" and owns: "list_all own_result dts"
    using Cons.prems(2) by (simp_all add: dt)
  have "sd_inv (c # map fst dts) s" using Cons.prems(1) by (simp add: dt)
  from handle_done_sd[OF this own]
  have h: "sd_inv (map fst dts) (state_of (handle_done w lp t s))" .
  show ?case
  proof (cases "handle_done w lp t s")
    case (Raised e s')
    with h have "sd_inv (map fst dts) s'" by simp
    then have "sd_inv [] s'" by (rule sd_inv_empty)
    with Raised show ?thesis by (simp add: dt)
  next
    case (Done s')
    with h have "sd_inv (map fst dts) s'" by simp
    from Cons.IH[OF this owns] Done show ?thesis by (simp add: dt)
  qed
qed

lemma execute_own_result: "own_result (n, snd (execute w lp g h n a))"
  unfolding execute_def own_result_def Let_def
  by (auto split: option.splits sum.splits reply.splits)

lemma start_tasks_own_result:
  "list_all own_result (running s) \<Longrightarrow> list_all own_result (running (start_tasks w lp ts s))"
proof (induction ts arbitrary: s)
  case Nil
  then show ?case by simp
next
  case (Cons t ts)
  obtain n a where t: "t = (n, a)" by (cases t)
  obtain h' out where e: "execute w lp (runtime_graph s) (heap s) n a = (h', out)"
    by (cases "execute w lp (runtime_graph s) (heap s) n a")
  have "own_result (n, out)" using execute_own_result[of n w lp "runtime_graph s" "heap s" a] e by simp
  then have "list_all own_result (running (s\<lparr>heap := h', running := running s @ [(n, out)]\<rparr>))"
    using Cons.prems by simp
  from Cons.IH[OF this] show ?case by (simp add: t e)
qed

lemma start_created_sd:
  assumes "sd_inv [] s"
  shows "sd_inv [] (start_created w lp s)"
proof -
  let ?s' = "start_created w lp s"
  have f: "result_dict ?s' = result_dict s" "runtime_graph ?s' = runtime_graph s"
    "created ?s' = []" "trace ?s' = trace s"
    "map fst (running ?s') = map fst (running s) @ map fst (created s)"
    using start_created_frame[of w lp s] by simp_all
  have fl: "inflight ?s' = inflight s" by (simp add: inflight_def f)
  have "list_all own_result (running (s\<lparr>created := []\<rparr>))"
    using assms by (simp add: sd_inv_def)
  then have own: "list_all own_result (running ?s')"
    unfolding start_created_def by (rule start_tasks_own_result)
  show ?thesis
    using assms own unfolding sd_inv_def f(1,2,4) fl by simp
qed

lemma batch_indices_distinct:
  assumes "distinct b"
  shows "distinct (b @ filter (\<lambda>i. i \<notin> set b) [0..<n])"
  using assms by auto

lemma map_nth_distinct:
  assumes "distinct xs" "distinct is" "\<forall>i \<in> set is. i < length xs"
  shows "distinct (map (\<lambda>i. xs ! i) is)"
proof -
  have "inj_on (\<lambda>i. xs ! i) (set is)"
    using assms(1,3) by (auto simp: inj_on_def nth_eq_iff_index_eq)
  with assms(2) show ?thesis by (simp add: distinct_map)
qed

lemma distinct_append_subset:
  "distinct ys \<Longrightarrow> set ys \<subseteq> set xs \<Longrightarrow> distinct (xs @ rest) \<Longrightarrow> distinct (ys @ rest)"
  by auto

lemma batch_split_nodes:
  assumes v: "valid_batch b ts" and d: "distinct (map fst ts @ rest)"
  shows "distinct (map (\<lambda>i. fst (ts ! i)) b @ map fst (remaining b ts) @ rest)"
    and "set (map (\<lambda>i. fst (ts ! i)) b @ map fst (remaining b ts) @ rest) \<subseteq> set (map fst ts @ rest)"
proof -
  let ?is = "b @ filter (\<lambda>i. i \<notin> set b) [0..<length ts]"
  from v have db: "distinct b" and lb: "\<forall>i \<in> set b. i < length ts"
    by (simp_all add: valid_batch_def list_all_iff)
  have dis: "distinct ?is" using db by (rule batch_indices_distinct)
  have lis: "\<forall>i \<in> set ?is. i < length (map fst ts)" using lb by auto
  have dts: "distinct (map fst ts)" using d by simp
  have eq: "map (\<lambda>i. fst (ts ! i)) b @ map fst (remaining b ts) = map (\<lambda>i. map fst ts ! i) ?is"
    using lb by (simp add: remaining_def comp_def)
  have sub: "set (map (\<lambda>i. map fst ts ! i) ?is) \<subseteq> set (map fst ts)"
  proof
    fix x assume "x \<in> set (map (\<lambda>i. map fst ts ! i) ?is)"
    then have "x \<in> (\<lambda>i. map fst ts ! i) ` set ?is" by (simp only: set_map)
    then obtain i where x: "x = map fst ts ! i" and i: "i \<in> set ?is" by (rule imageE)
    from i lis have "i < length (map fst ts)" by blast
    then show "x \<in> set (map fst ts)" unfolding x by (rule nth_mem)
  qed
  have "distinct (map (\<lambda>i. map fst ts ! i) ?is)"
    using dts dis lis by (rule map_nth_distinct)
  then have "distinct (map (\<lambda>i. map fst ts ! i) ?is @ rest)"
    using sub d by (rule distinct_append_subset)
  then show "distinct (map (\<lambda>i. fst (ts ! i)) b @ map fst (remaining b ts) @ rest)"
    using eq by (metis append.assoc)
  show "set (map (\<lambda>i. fst (ts ! i)) b @ map fst (remaining b ts) @ rest) \<subseteq> set (map fst ts @ rest)"
    using sub eq by (metis append.assoc set_append Un_mono subset_refl)
qed

lemma batch_sd:
  assumes inv: "sd_inv [] s" and v: "valid_batch b (running s)"
  shows "sd_inv (map fst (map (\<lambda>i. running s ! i) b)) (s\<lparr>running := remaining b (running s)\<rparr>)"
    and "list_all own_result (map (\<lambda>i. running s ! i) b)"
proof -
  let ?s' = "s\<lparr>running := remaining b (running s)\<rparr>"
  let ?fl = "map fst (map (\<lambda>i. running s ! i) b)"
  let ?D = "dispatched_nodes (trace s)"
  from inv have a: "distinct ?D"
    and b1: "distinct (inflight s)"
    and b2: "set (inflight s) \<subseteq> set ?D"
    and c: "\<forall>m r. result_dict s m = Some r \<and> \<not> is_streaming r \<longrightarrow>
               m \<in> set ?D \<and> m \<notin> set (inflight s)"
    and d: "\<forall>x \<in> set ?D. \<forall>u \<in> set (predecessors (runtime_graph s) x).
               u \<in> set ?D \<and> u \<notin> set (inflight s)"
    and e: "list_all own_result (running s)"
    and f: "graph_ok (runtime_graph s)"
    unfolding sd_inv_def by simp_all
  from v have lb: "\<forall>i \<in> set b. i < length (running s)"
    by (simp add: valid_batch_def list_all_iff)
  have fl: "?fl @ inflight ?s' = map (\<lambda>i. fst (running s ! i)) b @ map fst (remaining b (running s)) @ map fst (created s)"
    by (simp add: inflight_def comp_def)
  have d1: "distinct (?fl @ inflight ?s')"
    unfolding fl using v b1 unfolding inflight_def by (rule batch_split_nodes(1))
  have s1: "set (?fl @ inflight ?s') \<subseteq> set (inflight s)"
    unfolding fl using v b1 unfolding inflight_def by (rule batch_split_nodes(2))
  have e': "list_all own_result (remaining b (running s))"
    using e by (auto simp: remaining_def list_all_iff)
  show "list_all own_result (map (\<lambda>i. running s ! i) b)"
    using e lb by (auto simp: list_all_iff)
  have c': "\<forall>m r. result_dict s m = Some r \<and> \<not> is_streaming r \<longrightarrow>
               m \<in> set ?D \<and> m \<notin> set (?fl @ inflight ?s')"
    using c s1 by blast
  have d': "\<forall>x \<in> set ?D. \<forall>u \<in> set (predecessors (runtime_graph s) x).
               u \<in> set ?D \<and> u \<notin> set (?fl @ inflight ?s')"
    using d s1 by blast
  have b2': "set (?fl @ inflight ?s') \<subseteq> set ?D" using s1 b2 by blast
  have g: "trace ?s' = trace s" "result_dict ?s' = result_dict s"
    "runtime_graph ?s' = runtime_graph s" "running ?s' = remaining b (running s)"
    by simp_all
  show "sd_inv ?fl ?s'"
    unfolding sd_inv_def g
    using a d1 b2' c' d' e' f by blast
qed

lemma schedule_loop_sd:
  "sd_inv [] s \<Longrightarrow> schedule_loop w lp bs s = Some out \<Longrightarrow> sd_inv [] (state_of out)"
proof (induction bs arbitrary: s)
  case Nil
  then show ?case by (auto split: if_splits)
next
  case (Cons b bs)
  show ?case
  proof (cases "created s = [] \<and> running s = []")
    case True
    with Cons.prems show ?thesis by auto
  next
    case False
    define s1 where "s1 = start_created w lp s"
    define s1' where "s1' = s1\<lparr>running := remaining b (running s1)\<rparr>"
    define dts where "dts = map (\<lambda>i. running s1 ! i) b"
    have step: "schedule_loop w lp (b # bs) s =
        (if \<not> valid_batch b (running s1) then None
         else (case handle_batch w lp (map snd dts) s1' of
                 Raised e s2 \<Rightarrow> Some (Raised e s2)
               | Done s2 \<Rightarrow> schedule_loop w lp bs s2))"
      using False by (auto simp: s1_def s1'_def dts_def Let_def comp_def)
    have v: "valid_batch b (running s1)"
      using Cons.prems(2) unfolding step by (auto split: if_splits)
    have i1: "sd_inv [] s1" unfolding s1_def using Cons.prems(1) by (rule start_created_sd)
    have "sd_inv (map fst dts) s1'" "list_all own_result dts"
      unfolding dts_def s1'_def using batch_sd[OF i1 v] by simp_all
    then have hb: "sd_inv [] (state_of (handle_batch w lp (map snd dts) s1'))"
      by (rule handle_batch_sd)
    show ?thesis
    proof (cases "handle_batch w lp (map snd dts) s1'")
      case (Raised e s2)
      with Cons.prems(2) v have "out = Raised e s2" unfolding step by simp
      with hb Raised show ?thesis by simp
    next
      case (Done s2)
      with Cons.prems(2) v have "schedule_loop w lp bs s2 = Some out" unfolding step by simp
      moreover have "sd_inv [] s2" using hb Done by simp
      ultimately show ?thesis by (rule Cons.IH[rotated])
    qed
  qed
qed

lemma ind_nodes_distinct: "graph_ok g \<Longrightarrow> distinct (ind_nodes g)"
  by (simp add: graph_ok_def ind_nodes_def)

lemma initial_state_sd:
  assumes "graph_ok g"
  shows "sd_inv [] (initial_state g inp)"
proof -
  let ?s = "initial_state g inp"
  have f: "dispatched_nodes (trace ?s) = ind_nodes g" "inflight ?s = ind_nodes g"
    "result_dict ?s = (\<lambda>n. None)" "runtime_graph ?s = g" "running ?s = []"
    by (simp_all add: initial_state_def dispatched_nodes_map inflight_def comp_def)
  have d: "distinct (ind_nodes g)" using assms by (rule ind_nodes_distinct)
  have p: "\<forall>x \<in> set (ind_nodes g). \<forall>u \<in> set (predecessors g x).
             u \<in> set (ind_nodes g) \<and> u \<notin> set (ind_nodes g)"
    using ind_nodes_no_predecessors by simp
  show ?thesis
    unfolding sd_inv_def f using d p assms by simp
qed

text \<open>
  C3: in every state in which \<open>schedule\<close> returns or raises, whatever the batches of
  completions and their order, no node occurs twice among the nodes on which
  \<open>execute\<close> was invoked.  The graph is a mapping to sets: its keys are distinct and
  so are the successors of a node.
\<close>

theorem schedule_single_dispatch:
  assumes "graph_ok g"
    and "schedule w g initial_inputs lp batches m = Some (m', out)"
  shows "distinct (dispatched_nodes (trace (state_of out)))"
proof -
  from assms(2) obtain r where r: "schedule_loop w lp batches (initial_state g initial_inputs) = Some r"
    by (cases "schedule_loop w lp batches (initial_state g initial_inputs)")
       (simp_all add: schedule_def Let_def)
  have "sd_inv [] (state_of r)"
    using initial_state_sd[OF assms(1)] r by (rule schedule_loop_sd)
  then have d: "distinct (dispatched_nodes (trace (state_of r)))" by (simp add: sd_inv_def)
  have "trace (state_of out) = trace (state_of r)"
    using assms(2) r by (cases r) (auto simp: schedule_def Let_def)
  with d show ?thesis by simp
qed

theorem schedule_single_dispatch_witness:
  "graph_ok fan_in
   \<and> (\<exists>m' out. schedule plain_world fan_in [] streaming_off [[1, 0], [0]] no_metrics = Some (m', out)
        \<and> dispatched_nodes (trace (state_of out)) = [U ''A'', U ''B'', U ''C'']
        \<and> distinct (dispatched_nodes (trace (state_of out))))"
proof -
  have g: "graph_ok fan_in" by (simp add: graph_ok_def fan_in_def U_def)
  from fan_in_run obtain m' out where
    s: "schedule plain_world fan_in [] streaming_off [[1, 0], [0]] no_metrics = Some (m', out)"
    and t: "trace (state_of out)
         = [Dispatched (U ''A''), Dispatched (U ''B''), Recorded (U ''B''),
            Recorded (U ''A''), Dispatched (U ''C''), Recorded (U ''C'')]"
    by (cases "schedule plain_world fan_in [] streaming_off [[1, 0], [0]] no_metrics") auto
  from schedule_single_dispatch[OF g s] s t g show ?thesis by simp
qed

section \<open>Black-list pruning\<close>





lemma ready_scan_frame:
  "runtime_graph (state_of (ready_scan ds s)) = runtime_graph s
   \<and> result_dict (state_of (ready_scan ds s)) = result_dict s
   \<and> running (state_of (ready_scan ds s)) = running s
   \<and> log (state_of (ready_scan ds s)) = log s
   \<and> (\<exists>new. trace (state_of (ready_scan ds s)) = trace s @ map Dispatched new
             \<and> map fst (created (state_of (ready_scan ds s))) = map fst (created s) @ new
             \<and> set new \<subseteq> set ds
             \<and> (\<forall>y \<in> set new. \<exists>inp.
                   process_outputs (predecessors (runtime_graph s) y) (result_dict s) [] = Inr inp))"
proof (induction ds arbitrary: s)
  case Nil
  show ?case by simp
next
  case (Cons d r)
  let ?ps = "predecessors (runtime_graph s) d"
  show ?case
  proof (cases "list_all (\<lambda>i. result_dict s i \<noteq> None) ?ps")
    case False
    then have eq: "ready_scan (d # r) s = ready_scan r s" by simp
    from Cons.IH[of s] show ?thesis unfolding eq by (auto intro: exI)
  next
    case True
    show ?thesis
    proof (cases "process_outputs ?ps (result_dict s) []")
      case (Inl e)
      then have eq: "ready_scan (d # r) s = Raised e s" using True by simp
      show ?thesis unfolding eq by simp
    next
      case (Inr inputs)
      define s' where "s' = s\<lparr>heap := (heap s)(next_addr s := inputs), next_addr := Suc (next_addr s),
                    created := created s @ [(d, next_addr s)],
                    trace := trace s @ [Dispatched d]\<rparr>"
      have eq: "ready_scan (d # r) s = ready_scan r s'"
        using True Inr by (simp add: s'_def)
      have f: "runtime_graph s' = runtime_graph s" "result_dict s' = result_dict s"
        "running s' = running s" "log s' = log s" "trace s' = trace s @ [Dispatched d]"
        "map fst (created s') = map fst (created s) @ [d]"
        by (simp_all add: s'_def)
      from Cons.IH[of s'] obtain new where
        n: "trace (state_of (ready_scan r s')) = trace s' @ map Dispatched new"
           "map fst (created (state_of (ready_scan r s'))) = map fst (created s') @ new"
           "set new \<subseteq> set r"
           "\<forall>y \<in> set new. \<exists>inp.
               process_outputs (predecessors (runtime_graph s') y) (result_dict s') [] = Inr inp"
        and g: "runtime_graph (state_of (ready_scan r s')) = runtime_graph s'"
           "result_dict (state_of (ready_scan r s')) = result_dict s'"
           "running (state_of (ready_scan r s')) = running s'"
           "log (state_of (ready_scan r s')) = log s'"
        by auto
      have "trace (state_of (ready_scan r s')) = trace s @ map Dispatched (d # new)"
        "map fst (created (state_of (ready_scan r s'))) = map fst (created s) @ (d # new)"
        "set (d # new) \<subseteq> set (d # r)"
        "\<forall>y \<in> set (d # new). \<exists>inp.
               process_outputs (predecessors (runtime_graph s) y) (result_dict s) [] = Inr inp"
        using n Inr by (auto simp: f)
      then show ?thesis unfolding eq g f by blast
    qed
  qed
qed

lemma handle_done_result:
  assumes gok: "graph_ok (runtime_graph s)"
  obtains (raised) e where "t = Inl e" "handle_done w lp t s = Raised e s"
  | (step) resp n s1 ds' s2 where
      "t = Inr (resp, n)"
      "s1 = s\<lparr>result_dict := (result_dict s)(n \<mapsto> resp), trace := trace s @ [Recorded n]\<rparr>"
      "state_of (apply_black_list w lp resp n (downstream (runtime_graph s) n) s1) = (ds', s2)"
      "black_list_frame n (downstream (runtime_graph s) n, s1) (ds', s2)"
      "downstream (runtime_graph s2) n = ds'" "distinct ds'"
      "(\<exists>e. apply_black_list w lp resp n (downstream (runtime_graph s) n) s1 = Raised e (ds', s2)
            \<and> handle_done w lp t s = Raised e s2)
       \<or> (apply_black_list w lp resp n (downstream (runtime_graph s) n) s1 = Done (ds', s2)
            \<and> handle_done w lp t s = ready_scan ds' s2)"
proof (cases t)
  case (Inl e)
  then have "handle_done w lp t s = Raised e s" by (simp add: handle_done_def)
  with Inl show ?thesis by (rule raised)
next
  case (Inr rn)
  obtain resp n where rn: "rn = (resp, n)" by (cases rn)
  define s1 where "s1 = s\<lparr>result_dict := (result_dict s)(n \<mapsto> resp), trace := trace s @ [Recorded n]\<rparr>"
  define ds where "ds = downstream (runtime_graph s) n"
  obtain ds' s2 where ab: "state_of (apply_black_list w lp resp n ds s1) = (ds', s2)"
    by (cases "state_of (apply_black_list w lp resp n ds s1)")
  have hd: "handle_done w lp t s =
      (case apply_black_list w lp resp n ds s1 of
         Raised e (ds, s2) \<Rightarrow> Raised e s2 | Done (ds, s2) \<Rightarrow> ready_scan ds s2)"
    by (simp add: handle_done_def Inr rn s1_def ds_def Let_def)
  have fr: "black_list_frame n (ds, s1) (ds', s2)"
    using ab by (rule apply_black_list_frame)
  have g1: "runtime_graph s1 = runtime_graph s" by (simp add: s1_def)
  have dds: "distinct ds" unfolding ds_def using gok by (rule graph_ok_downstream_distinct)
  from fr have "distinct ds \<and> downstream (runtime_graph s1) n = ds \<longrightarrow>
                  downstream (runtime_graph s2) n = ds' \<and> distinct ds'"
    unfolding black_list_frame_def pruned_def by simp
  then have sync: "downstream (runtime_graph s2) n = ds'" "distinct ds'"
    using dds by (simp_all add: g1 ds_def)
  have alt: "(\<exists>e. apply_black_list w lp resp n ds s1 = Raised e (ds', s2)
                  \<and> handle_done w lp t s = Raised e s2)
       \<or> (apply_black_list w lp resp n ds s1 = Done (ds', s2)
            \<and> handle_done w lp t s = ready_scan ds' s2)"
    using ab hd by (cases "apply_black_list w lp resp n ds s1") auto
  show ?thesis
    using Inr[unfolded rn] s1_def ab[unfolded ds_def] fr[unfolded ds_def] sync alt[unfolded ds_def]
    by (rule step)
qed


















section \<open>Patterns that do not compile\<close>

lemma invalid_pattern_unlogged:
  "map_option (\<lambda>mo. (raised (snd mo), log (state_of (snd mo))))
     (schedule (guard_world (veto_list [U ''.*'', U ''(''])) guard_graph [] streaming_off [[0]]
        no_metrics) = Some (None, [])"
  by code_simp

lemma invalid_pattern_leaf:
  "map_option (\<lambda>mo. (raised (snd mo), log (state_of (snd mo))))
     (schedule (guard_world (veto (U ''(''))) lone_guard [] streaming_off [[0]] no_metrics)
   = Some (None, [])"
  by code_simp

lemma invalid_pattern_no_text:
  "map_option (\<lambda>mo. (raised (snd mo), log (state_of (snd mo))))
     (schedule (guard_world (veto_no_text (U ''(''))) lone_guard [] streaming_on [[0]] no_metrics)
   = Some (Some KeyError, [])"
  by code_simp

lemma invalid_pattern_overflow:
  "map_option (\<lambda>mo. (raised (snd mo), log (state_of (snd mo))))
     (schedule (guard_world (veto (U ''a{4294967296}''))) guard_graph [] streaming_off [[0]]
        no_metrics) = Some (Some OverflowError, [])"
  by code_simp

text \<open>
  C6, as stated, fails in three ways.  The pattern \<open>(\<close> is compiled only inside the
  loop over the downstream nodes that are left (lines 160-162): after \<open>.*\<close> has
  removed \<open>X\<close> and \<open>Y\<close>, and for a guardrail without downstream nodes, the request ends
  with nothing logged.  When no downstream node is left and the request streams, line
  177 reads the \<open>text\<close> of the payload, and the payload without one makes
  \<open>schedule\<close> raise \<open>KeyError\<close>.  And line 167 catches \<open>re.error\<close> only: the
  \<open>OverflowError\<close> of the pattern \<open>a{4294967296}\<close> leaves \<open>schedule\<close>.
\<close>

theorem invalid_pattern_counterexample:
  "re_findall (guard_world (veto (U ''(''))) (U ''('') (U ''X'') = Inl ReError
   \<and> map_option (\<lambda>mo. (raised (snd mo), log (state_of (snd mo))))
        (schedule (guard_world (veto_list [U ''.*'', U ''(''])) guard_graph [] streaming_off [[0]]
           no_metrics) = Some (None, [])
   \<and> map_option (\<lambda>mo. (raised (snd mo), log (state_of (snd mo))))
        (schedule (guard_world (veto (U ''(''))) lone_guard [] streaming_off [[0]] no_metrics)
       = Some (None, [])
   \<and> map_option (\<lambda>mo. (raised (snd mo), log (state_of (snd mo))))
        (schedule (guard_world (veto_no_text (U ''(''))) lone_guard [] streaming_on [[0]]
           no_metrics) = Some (Some KeyError, [])
   \<and> re_findall (guard_world (veto (U ''a{4294967296}''))) (U ''a{4294967296}'') (U ''X'')
       = Inl OverflowError
   \<and> map_option (\<lambda>mo. (raised (snd mo), log (state_of (snd mo))))
        (schedule (guard_world (veto (U ''a{4294967296}''))) guard_graph [] streaming_off [[0]]
           no_metrics) = Some (Some OverflowError, [])"
  using invalid_pattern_unlogged invalid_pattern_leaf invalid_pattern_no_text
    invalid_pattern_overflow
  by (simp add: guard_world_def example_findall_def U_def)

text \<open>
  C6, amended: a pattern on which \<open>re.findall\<close> raises \<open>re.error\<close> for the downstream
  nodes that are left when the loop over the black list reaches it leaves the scan of
  lines 160-168 without an exception, with the runtime graph and the local list of
  downstream nodes as they were and the error logged once for each of these nodes (so
  not at all when none is left).  The loop over the black list then goes on with the
  next pattern: at once when a downstream node is left or the request does not stream,
  and after line 176 has stored the synthesized stream when none is left, the request
  streams and the payload has a \<open>text\<close>.
\<close>

theorem invalid_pattern_skipped:
  assumes "\<forall>d \<in> set ds. re_findall w p d = Inl ReError"
  shows "prune_downstreams w (VStr p) n (length ds) (g, ds, lg)
           = Done (g, ds, lg @ replicate (length ds) ''Pattern invalid! Operation cancelled.'')
         \<and> (ds \<noteq> [] \<or> \<not> stream lp \<longrightarrow>
              black_list_loop w lp resp n (VStr p # r) ds s
                = black_list_loop w lp resp n r ds
                    (s\<lparr>log := log s @ replicate (length ds) ''Pattern invalid! Operation cancelled.''\<rparr>))
         \<and> (ds = [] \<and> stream lp \<and> map_of resp (U ''text'') = Some tval \<longrightarrow>
              black_list_loop w lp resp n (VStr p # r) ds s
                = black_list_loop w lp resp n r ds
                    (s\<lparr>result_dict := (result_dict s)(n \<mapsto> Streaming (FakeStream tval)),
                       trace := trace s @ [Recorded n]\<rparr>))"
proof -
  have 1: "\<And>g lg. prune_downstreams w (VStr p) n (length ds) (g, ds, lg)
           = Done (g, ds, lg @ replicate (length ds) ''Pattern invalid! Operation cancelled.'')"
    using assms by (intro prune_downstreams_invalid) simp_all
  have "s\<lparr>runtime_graph := runtime_graph s,
           log := log s @ replicate (length ds) ''Pattern invalid! Operation cancelled.''\<rparr>
        = s\<lparr>log := log s @ replicate (length ds) ''Pattern invalid! Operation cancelled.''\<rparr>"
    by simp
  then have 2: "ds \<noteq> [] \<or> \<not> stream lp \<longrightarrow>
              black_list_loop w lp resp n (VStr p # r) ds s
                = black_list_loop w lp resp n r ds
                    (s\<lparr>log := log s @ replicate (length ds) ''Pattern invalid! Operation cancelled.''\<rparr>)"
    by (auto simp: 1 Let_def)
  have 3: "ds = [] \<and> stream lp \<and> map_of resp (U ''text'') = Some tval \<longrightarrow>
              black_list_loop w lp resp n (VStr p # r) ds s
                = black_list_loop w lp resp n r ds
                    (s\<lparr>result_dict := (result_dict s)(n \<mapsto> Streaming (FakeStream tval)),
                       trace := trace s @ [Recorded n]\<rparr>)"
    by (auto simp: Let_def)
  from 1 2 3 show ?thesis by blast
qed

lemma invalid_pattern_run:
  "map_option (\<lambda>mo. (raised (snd mo), trace (state_of (snd mo)), runtime_graph (state_of (snd mo)),
                      log (state_of (snd mo))))
     (schedule (guard_world (veto (U ''(''))) guard_graph [] streaming_off [[0], [0, 1]] no_metrics)
   = Some (None,
           [Dispatched (U ''G''), Recorded (U ''G''), Dispatched (U ''X''), Dispatched (U ''Y''),
            Recorded (U ''X''), Recorded (U ''Y'')],
           guard_graph,
           [''Pattern invalid! Operation cancelled.'', ''Pattern invalid! Operation cancelled.''])"
  by code_simp

theorem invalid_pattern_skipped_witness:
  "list_all (\<lambda>d. example_findall (U ''('') d = Inl ReError) [U ''X'', U ''Y'']
   \<and> prune_downstreams (guard_world (veto (U ''(''))) (VStr (U ''('')) (U ''G'') 2
         (guard_graph, [U ''X'', U ''Y''], [])
       = Done (guard_graph, [U ''X'', U ''Y''],
               [''Pattern invalid! Operation cancelled.'', ''Pattern invalid! Operation cancelled.''])
   \<and> black_list_loop (guard_world (veto (U ''(''))) streaming_off (veto (U ''('')) (U ''G'')
         [VStr (U ''('')] [U ''X'', U ''Y''] (initial_state guard_graph [])
       = Done ([U ''X'', U ''Y''],
               (initial_state guard_graph [])
                 \<lparr>log := [''Pattern invalid! Operation cancelled.'',
                          ''Pattern invalid! Operation cancelled.'']\<rparr>)
   \<and> black_list_loop (guard_world (veto (U ''(''))) streaming_on (veto (U ''('')) (U ''G'')
         [VStr (U ''('')] [] (initial_state lone_guard [])
       = Done ([], (initial_state lone_guard [])
                 \<lparr>result_dict := (result_dict (initial_state lone_guard []))
                                   (U ''G'' \<mapsto> Streaming (FakeStream (VStr (U ''ok'')))),
                  trace := trace (initial_state lone_guard []) @ [Recorded (U ''G'')]\<rparr>)
   \<and> map_option (\<lambda>mo. (raised (snd mo), log (state_of (snd mo))))
        (schedule (guard_world (veto (U ''(''))) guard_graph [] streaming_off [[0], [0, 1]] no_metrics)
       = Some (None, [''Pattern invalid! Operation cancelled.'',
                      ''Pattern invalid! Operation cancelled.''])"
proof -
  let ?w = "guard_world (veto (U ''(''))"
  have a: "\<forall>d \<in> set [U ''X'', U ''Y'']. re_findall ?w (U ''('') d = Inl ReError"
    by (simp add: guard_world_def example_findall_def)
  have a': "\<forall>d \<in> set []. re_findall ?w (U ''('') d = Inl ReError"
    by simp
  have b: "list_all (\<lambda>d. example_findall (U ''('') d = Inl ReError) [U ''X'', U ''Y'']"
    by (simp add: example_findall_def)
  have c: "map_option (\<lambda>mo. (raised (snd mo), log (state_of (snd mo))))
        (schedule ?w guard_graph [] streaming_off [[0], [0, 1]] no_metrics)
       = Some (None, [''Pattern invalid! Operation cancelled.'',
                      ''Pattern invalid! Operation cancelled.''])"
    using invalid_pattern_run
    by (cases "schedule ?w guard_graph [] streaming_off [[0], [0, 1]] no_metrics")
       auto
  note t = invalid_pattern_skipped[OF a, where n = "U ''G''" and g = guard_graph and lg = "[]"
      and lp = streaming_off and resp = "veto (U ''('')" and r = "[]"
      and s = "initial_state guard_graph []"]
  from t have d: "prune_downstreams ?w (VStr (U ''('')) (U ''G'') 2
         (guard_graph, [U ''X'', U ''Y''], [])
       = Done (guard_graph, [U ''X'', U ''Y''],
               [''Pattern invalid! Operation cancelled.'', ''Pattern invalid! Operation cancelled.''])"
    by (simp add: numeral_2_eq_2)
  from t have e: "black_list_loop ?w streaming_off (veto (U ''('')) (U ''G'')
         [VStr (U ''('')] [U ''X'', U ''Y''] (initial_state guard_graph [])
       = Done ([U ''X'', U ''Y''],
               (initial_state guard_graph [])
                 \<lparr>log := [''Pattern invalid! Operation cancelled.'',
                          ''Pattern invalid! Operation cancelled.'']\<rparr>)"
    by (simp add: numeral_2_eq_2 streaming_off_def initial_state_def)
  from invalid_pattern_skipped[OF a', where n = "U ''G''" and lp = streaming_on
      and resp = "veto (U ''('')" and r = "[]" and s = "initial_state lone_guard []"
      and tval = "VStr (U ''ok'')"]
  have f: "black_list_loop ?w streaming_on (veto (U ''('')) (U ''G'')
         [VStr (U ''('')] [] (initial_state lone_guard [])
       = Done ([], (initial_state lone_guard [])
                 \<lparr>result_dict := (result_dict (initial_state lone_guard []))
                                   (U ''G'' \<mapsto> Streaming (FakeStream (VStr (U ''ok'')))),
                  trace := trace (initial_state lone_guard []) @ [Recorded (U ''G'')]\<rparr>)"
    by (simp add: streaming_on_def veto_def U_def)
  from b c d e f show ?thesis by blast
qed

section \<open>The synthesized stream\<close>

lemma black_list_loop_fake:
  "black_list_loop w lp resp n ps ds s = Done (ds', s') \<Longrightarrow> ds' = [] \<Longrightarrow> stream lp \<Longrightarrow>
     map_of resp (U ''text'') = Some tval \<Longrightarrow>
     ps \<noteq> [] \<or> result_dict s n = Some (Streaming (FakeStream tval)) \<Longrightarrow>
     result_dict s' n = Some (Streaming (FakeStream tval))"
proof (induction ps arbitrary: ds s)
  case Nil
  then show ?case by simp
next
  case (Cons b r)
  let ?pr = "prune_downstreams w b n (length ds) (runtime_graph s, ds, log s)"
  obtain g1 ds1 lg1 where st: "state_of ?pr = (g1, ds1, lg1)"
    by (cases "state_of ?pr")
  have pd: "?pr = Done (g1, ds1, lg1)"
    using Cons.prems(1) st by (cases ?pr) simp_all
  define s1 where "s1 = s\<lparr>runtime_graph := g1, log := lg1\<rparr>"
  show ?case
  proof (cases "ds1 = []")
    case True
    define s2 where "s2 = s1\<lparr>result_dict := (result_dict s1)(n \<mapsto> Streaming (FakeStream tval)),
                       trace := trace s1 @ [Recorded n]\<rparr>"
    have rec: "black_list_loop w lp resp n r ds1 s2 = Done (ds', s')"
      using Cons.prems(1,3,4) pd True by (simp add: s1_def s2_def Let_def)
    have "result_dict s2 n = Some (Streaming (FakeStream tval))" by (simp add: s2_def)
    then have "r \<noteq> [] \<or> result_dict s2 n = Some (Streaming (FakeStream tval))" by simp
    from Cons.IH[OF rec Cons.prems(2,3,4) this] show ?thesis .
  next
    case False
    have rec: "black_list_loop w lp resp n r ds1 s1 = Done (ds', s')"
      using Cons.prems(1) pd False by (simp add: s1_def Let_def)
    have "r \<noteq> []"
    proof
      assume "r = []"
      with rec have "ds' = ds1" by simp
      with False Cons.prems(2) show False by simp
    qed
    then have "r \<noteq> [] \<or> result_dict s1 n = Some (Streaming (FakeStream tval))" by simp
    from Cons.IH[OF rec Cons.prems(2,3,4) this] show ?thesis .
  qed
qed

text \<open>
  C7, as stated, fails for a payload with a \<open>text\<close> field and no black list: the
  node \<open>G\<close> has no downstream node, the request streams, and the structured payload
  stays in the result table.  It also fails for a payload whose black list removes
  every downstream node and whose \<open>text\<close> is the number 5: the result table gets the
  synthesized stream, whose first read raises \<open>TypeError\<close> (line 174 adds the text to a
  \<open>str\<close>) before any event.
\<close>

theorem stream_fallback_counterexample:
  "stream streaming_on
   \<and> map_of only_text (U ''text'') = Some (VStr (U ''ok''))
   \<and> map_option (\<lambda>mo. (raised (snd mo), downstream (runtime_graph (state_of (snd mo))) (U ''G''),
                        result_dict (state_of (snd mo)) (U ''G'')))
        (schedule (guard_world only_text) lone_guard [] streaming_on [[0]] no_metrics)
       = Some (None, [], Some (Structured only_text))
   \<and> map_of veto_number (U ''text'') = Some (VInt 5)
   \<and> map_option (\<lambda>mo. (raised (snd mo), downstream (runtime_graph (state_of (snd mo))) (U ''G''),
                        result_dict (state_of (snd mo)) (U ''G'')))
        (schedule (guard_world veto_number) guard_graph [] streaming_on [[0]] no_metrics)
       = Some (None, [], Some (Streaming (FakeStream (VInt 5))))
   \<and> run_stream (guard_world veto_number) (FakeStream (VInt 5)) no_metrics
       = Raised TypeError (new_stitch no_metrics)
   \<and> emitted (new_stitch no_metrics) = []"
  by (simp add: sched_defs example_defs only_text_def lone_guard_def veto_number_def
      fake_stream_def new_stitch_def)

text \<open>
  C7, amended: whenever the payload of the completed node \<open>n\<close> carries a
  \<open>downstream_black_list\<close> with at least one pattern and a \<open>text\<close> field, the
  request streams, the visit of the completion (the pruning by the black list and the
  readiness scan) raises nothing and \<open>n\<close> has no downstream node left afterwards, the
  result table holds for \<open>n\<close> the synthesized stream of the text.  When the text is a
  string, that stream, read to its end, emits the text event and the \<open>[DONE]\<close> event
  and nothing else; when it is no string, the first read of the stream raises
  \<open>TypeError\<close> and no event is emitted.
\<close>

theorem stream_fallback:
  assumes bl: "map_of d (U ''downstream_black_list'') = Some bl"
    and it: "py_iter bl = Inr (b # bs)"
    and tx: "map_of d (U ''text'') = Some tval"
    and st: "stream lp"
    and gok: "graph_ok (runtime_graph s)"
    and dn: "handle_done w lp (Inr (Structured d, n)) s = Done s'"
    and em: "downstream (runtime_graph s') n = []"
  shows "result_dict s' n = Some (Streaming (FakeStream tval))
         \<and> (\<forall>t. tval = VStr t \<longrightarrow>
               run_stream w (FakeStream tval) m
                 = Done ((new_stitch m)\<lparr>emitted := [Text (U ''data: b'' @ [39] @ t @ [39, 10, 10]),
                                                   Text done_event]\<rparr>))
         \<and> ((\<forall>t. tval \<noteq> VStr t) \<longrightarrow>
               run_stream w (FakeStream tval) m = Raised TypeError (new_stitch m)
               \<and> emitted (new_stitch m) = [])"
proof -
  have ev: "\<forall>t. tval = VStr t \<longrightarrow>
               run_stream w (FakeStream tval) m
                 = Done ((new_stitch m)\<lparr>emitted := [Text (U ''data: b'' @ [39] @ t @ [39, 10, 10]),
                                                   Text done_event]\<rparr>)"
    by (simp add: fake_stream_def)
  have ty: "(\<forall>t. tval \<noteq> VStr t) \<longrightarrow>
               run_stream w (FakeStream tval) m = Raised TypeError (new_stitch m)
               \<and> emitted (new_stitch m) = []"
    by (cases tval) (simp_all add: fake_stream_def new_stitch_def)
  from gok have "result_dict s' n = Some (Streaming (FakeStream tval))"
  proof (cases rule: handle_done_result[where t = "Inr (Structured d, n)" and w = w and lp = lp])
    case (raised e)
    then show ?thesis by simp
  next
    case (step resp k s1 ds' s2)
    then have rk: "resp = Structured d" "k = n" by simp_all
    from step(7) dn have ab: "apply_black_list w lp resp k (downstream (runtime_graph s) k) s1 = Done (ds', s2)"
      and rs: "ready_scan ds' s2 = Done s'" by auto
    have loop: "black_list_loop w lp d n (b # bs) (downstream (runtime_graph s) n) s1 = Done (ds', s2)"
      using ab rk bl it by (simp add: apply_black_list_def)
    have fs: "state_of (ready_scan ds' s2) = s'" using rs by simp
    from ready_scan_frame[of ds' s2]
    have g: "runtime_graph s' = runtime_graph s2" and r: "result_dict s' = result_dict s2"
      unfolding fs by blast+
    have "ds' = []" using step(5) em g rk by simp
    from black_list_loop_fake[OF loop this st tx] r show ?thesis by simp
  qed
  with ev ty show ?thesis by blast
qed

lemma stream_fallback_handled:
  "map_option (\<lambda>s'. downstream (runtime_graph s') (U ''G''))
     (case handle_done (guard_world (veto (U ''.*''))) streaming_on
             (Inr (Structured (veto (U ''.*'')), U ''G'')) (initial_state guard_graph []) of
        Done s' \<Rightarrow> Some s' | Raised e s' \<Rightarrow> None) = Some []"
  by code_simp

lemma stream_fallback_handled_number:
  "map_option (\<lambda>s'. downstream (runtime_graph s') (U ''G''))
     (case handle_done (guard_world veto_number) streaming_on
             (Inr (Structured veto_number, U ''G'')) (initial_state guard_graph []) of
        Done s' \<Rightarrow> Some s' | Raised e s' \<Rightarrow> None) = Some []"
  by code_simp

theorem stream_fallback_witness:
  "map_of (veto (U ''.*'')) (U ''downstream_black_list'') = Some (VList [VStr (U ''.*'')])
   \<and> py_iter (VList [VStr (U ''.*'')]) = Inr [VStr (U ''.*'')]
   \<and> map_of (veto (U ''.*'')) (U ''text'') = Some (VStr (U ''ok''))
   \<and> map_of veto_number (U ''downstream_black_list'') = Some (VList [VStr (U ''.*'')])
   \<and> map_of veto_number (U ''text'') = Some (VInt 5)
   \<and> stream streaming_on
   \<and> graph_ok (runtime_graph (initial_state guard_graph []))
   \<and> (\<exists>s'. handle_done (guard_world (veto (U ''.*''))) streaming_on
               (Inr (Structured (veto (U ''.*'')), U ''G'')) (initial_state guard_graph []) = Done s'
          \<and> downstream (runtime_graph s') (U ''G'') = []
          \<and> result_dict s' (U ''G'') = Some (Streaming (FakeStream (VStr (U ''ok'')))))
   \<and> emitted (state_of (run_stream (guard_world (veto (U ''.*'')))
                 (FakeStream (VStr (U ''ok''))) no_metrics))
       = [Text (U ''data: b'' @ [39] @ U ''ok'' @ [39, 10, 10]), Text (U ''data: [DONE]'' @ [10, 10])]
   \<and> (\<exists>s'. handle_done (guard_world veto_number) streaming_on
               (Inr (Structured veto_number, U ''G'')) (initial_state guard_graph []) = Done s'
          \<and> downstream (runtime_graph s') (U ''G'') = []
          \<and> result_dict s' (U ''G'') = Some (Streaming (FakeStream (VInt 5))))
   \<and> run_stream (guard_world veto_number) (FakeStream (VInt 5)) no_metrics
       = Raised TypeError (new_stitch no_metrics)"
proof -
  let ?w = "guard_world (veto (U ''.*''))"
  let ?v = "guard_world veto_number"
  let ?s = "initial_state guard_graph []"
  have a: "map_of (veto (U ''.*'')) (U ''downstream_black_list'') = Some (VList [VStr (U ''.*'')])"
    "py_iter (VList [VStr (U ''.*'')]) = Inr [VStr (U ''.*'')]"
    "map_of (veto (U ''.*'')) (U ''text'') = Some (VStr (U ''ok''))"
    "stream streaming_on"
    "graph_ok (runtime_graph ?s)"
    by (simp_all add: veto_def U_def streaming_on_def graph_ok_def guard_graph_def initial_state_def)
  have v: "map_of veto_number (U ''downstream_black_list'') = Some (VList [VStr (U ''.*'')])"
    "map_of veto_number (U ''text'') = Some (VInt 5)"
    by (simp_all add: veto_number_def U_def)
  from stream_fallback_handled obtain s' where
    h: "handle_done ?w streaming_on (Inr (Structured (veto (U ''.*'')), U ''G'')) ?s = Done s'"
    and e: "downstream (runtime_graph s') (U ''G'') = []"
    by (cases "handle_done ?w streaming_on (Inr (Structured (veto (U ''.*'')), U ''G'')) ?s") auto
  from stream_fallback_handled_number obtain s'' where
    h': "handle_done ?v streaming_on (Inr (Structured veto_number, U ''G'')) ?s = Done s''"
    and e': "downstream (runtime_graph s'') (U ''G'') = []"
    by (cases "handle_done ?v streaming_on (Inr (Structured veto_number, U ''G'')) ?s") auto
  from stream_fallback[OF a h e, where m = no_metrics]
  have 1: "result_dict s' (U ''G'') = Some (Streaming (FakeStream (VStr (U ''ok''))))"
    and 2: "emitted (state_of (run_stream ?w (FakeStream (VStr (U ''ok''))) no_metrics))
       = [Text (U ''data: b'' @ [39] @ U ''ok'' @ [39, 10, 10]), Text (U ''data: [DONE]'' @ [10, 10])]"
    by (simp_all add: done_event_def new_stitch_def)
  from stream_fallback[OF v(1) a(2) v(2) a(4) a(5) h' e', where m = no_metrics]
  have 3: "result_dict s'' (U ''G'') = Some (Streaming (FakeStream (VInt 5)))"
    and 4: "run_stream ?v (FakeStream (VInt 5)) no_metrics = Raised TypeError (new_stitch no_metrics)"
    by simp_all
  from a v h e h' e' 1 2 3 4 show ?thesis by blast
qed

section \<open>Flushing in the stream stitcher\<close>

lemma emit_tokens_frames:
  "map frame toks = map Inr evs \<Longrightarrow>
     \<exists>m'. emit_tokens toks fst_flag (out, m) = Done (out @ map Text evs, m')"
proof (induction toks arbitrary: evs fst_flag out m)
  case Nil
  then show ?case by simp
next
  case (Cons tok toks)
  then obtain ev evs' where evs: "evs = ev # evs'" and f: "frame tok = Inr ev"
    and r: "map frame toks = map Inr evs'"
    by (cases evs) auto
  from Cons.IH[OF r, of False "out @ [Text ev]" "token_update fst_flag m"]
  show ?case by (simp add: f evs Let_def)
qed

lemma stitch_one_chunk_posted:
  assumes "chunk \<noteq> []" "downs \<noteq> []" "utf8_decode chunk = Inr chunk_str"
  shows "posted (state_of (generate_chunks w downs [chunk] st))
           = posted st @ (if flushes (buffered_chunk_str st @ extract_chunk_str chunk_str) chunk_str
                          then [(hd downs, buffered_chunk_str st @ extract_chunk_str chunk_str)]
                          else [])"
  using assms
  by (auto simp: flushes_def Let_def split: sum.splits option.splits outcome.splits prod.splits)

lemma stitch_one_chunk_kept:
  assumes "chunk \<noteq> []" "downs \<noteq> []" "utf8_decode chunk = Inr chunk_str"
    and "\<not> flushes (buffered_chunk_str st @ extract_chunk_str chunk_str) chunk_str"
  shows "generate_chunks w downs [chunk] st
           = Done (st\<lparr>buffered_chunk_str := buffered_chunk_str st @ extract_chunk_str chunk_str\<rparr>)"
  using assms by (auto simp: flushes_def Let_def)

lemma stitch_one_chunk_flushed:
  assumes "chunk \<noteq> []" "downs \<noteq> []" "utf8_decode chunk = Inr chunk_str"
    and fl: "flushes (buffered_chunk_str st @ extract_chunk_str chunk_str) chunk_str"
    and po: "http_post_segment w (hd downs) (buffered_chunk_str st @ extract_chunk_str chunk_str) = Inr res"
    and tx: "map_of res (U ''text'') = Some (VStr reply)"
    and fr: "map frame (findall_tokens reply) = map Inr evs"
  shows "raised (generate_chunks w downs [chunk] st) = None
         \<and> emitted (state_of (generate_chunks w downs [chunk] st))
             = emitted st @ map Text evs
               @ (if endswith chunk_str (U ''[DONE]'' @ [10, 10]) then [Text done_event] else [])
         \<and> buffered_chunk_str (state_of (generate_chunks w downs [chunk] st)) = []"
proof -
  let ?buf = "buffered_chunk_str st @ extract_chunk_str chunk_str"
  let ?st2 = "st\<lparr>buffered_chunk_str := ?buf, posted := posted st @ [(hd downs, ?buf)]\<rparr>"
  obtain m' where e: "emit_tokens (findall_tokens reply) (is_first st) (emitted st, meters st)
                        = Done (emitted st @ map Text evs, m')"
    using emit_tokens_frames[OF fr] by blast
  have cond: "(?buf \<noteq> [] \<and> last ?buf \<in> set hitted_ends) \<or> endswith chunk_str (U ''[DONE]'' @ [10, 10])"
    using fl by (simp add: flushes_def)
  show ?thesis
    using assms(1,2,3) cond po tx e
    by (cases "endswith chunk_str (U ''[DONE]'' @ [10, 10])")
       (simp_all add: Let_def token_generator_def)
qed

lemmas stitch_defs = generate_def new_stitch_def utf8_decode.simps continuation_def
  extract_chunk_str_def startswith_def endswith_def hitted_ends_def token_generator_def frame_def
  utf8_encode_char_def bytes_repr_def repr_byte_def is_space_def token_update_def
  request_update_def pending_update_def fake_stream_def request_pending_def

lemma five_tokens_echo:
  "raised (generate (stitch_world echo_text) five_tokens [U ''TTS''] no_metrics) = None
   \<and> map snd (posted (state_of (generate (stitch_world echo_text) five_tokens [U ''TTS''] no_metrics)))
       = [U ''Hi there.'', U '' How?'', []]
   \<and> last (emitted (state_of (generate (stitch_world echo_text) five_tokens [U ''TTS''] no_metrics)))
       = Text done_event"
  by (simp add: stitch_defs example_defs Let_def)

text \<open>
  C9, as stated, fails in its example: for the five tokens followed by \<open>[DONE]\<close>, each
  in a chunk of its own, the stitcher flushes three times.  The chunk \<open>[DONE]\<close> is the
  last one and flushes the buffer that the flush after \<open>?\<close> left empty, so an empty
  text is posted too.
\<close>

theorem stitcher_two_flushes_counterexample:
  "map snd (posted (state_of (generate (stitch_world echo_text) five_tokens [U ''TTS''] no_metrics)))
     = [U ''Hi there.'', U '' How?'', []]
   \<and> length (posted (state_of (generate (stitch_world echo_text) five_tokens [U ''TTS''] no_metrics))) = 3"
proof -
  have p: "map snd (posted (state_of (generate (stitch_world echo_text) five_tokens [U ''TTS''] no_metrics)))
     = [U ''Hi there.'', U '' How?'', []]"
    using five_tokens_echo by blast
  from this
  have "length (map snd (posted (state_of (generate (stitch_world echo_text) five_tokens [U ''TTS''] no_metrics))))
          = length [U ''Hi there.'', U '' How?'', []]"
    by (rule arg_cong)
  then have "length (posted (state_of (generate (stitch_world echo_text) five_tokens [U ''TTS''] no_metrics))) = 3"
    unfolding length_map by simp
  with p show ?thesis by blast
qed

text \<open>
  C9, amended: in forward-through-downstream mode a non-empty chunk that decodes makes
  the stitcher post the buffer (with the chunk's text appended) to the downstream node
  exactly when the buffer's final character is a terminator or the chunk ends with
  \<open>[DONE]\<close> and two line feeds; the tokens that \<open>\s?\S+\s?\<close> finds in the reply's
  text are emitted framed, followed by the \<open>[DONE]\<close> event after the last chunk, and
  the buffer is cleared; otherwise the chunk is only buffered.  For the five tokens
  followed by \<open>[DONE]\<close>, each in its own chunk, three flushes occur, posting
  \<open>Hi there.\<close>, then \<open> How?\<close>, then the empty text, and the final event is
  \<open>[DONE]\<close>.
\<close>

theorem stitcher_flush_discipline:
  assumes "chunk \<noteq> []" "downs \<noteq> []" "utf8_decode chunk = Inr chunk_str"
  shows "posted (state_of (generate_chunks w downs [chunk] st))
           = posted st @ (if flushes (buffered_chunk_str st @ extract_chunk_str chunk_str) chunk_str
                          then [(hd downs, buffered_chunk_str st @ extract_chunk_str chunk_str)]
                          else [])
         \<and> (flushes (buffered_chunk_str st @ extract_chunk_str chunk_str) chunk_str
              \<and> http_post_segment w (hd downs) (buffered_chunk_str st @ extract_chunk_str chunk_str)
                  = Inr res
              \<and> map_of res (U ''text'') = Some (VStr reply)
              \<and> map frame (findall_tokens reply) = map Inr evs
            \<longrightarrow> raised (generate_chunks w downs [chunk] st) = None
                \<and> emitted (state_of (generate_chunks w downs [chunk] st))
                    = emitted st @ map Text evs
                      @ (if endswith chunk_str (U ''[DONE]'' @ [10, 10]) then [Text done_event] else [])
                \<and> buffered_chunk_str (state_of (generate_chunks w downs [chunk] st)) = [])
         \<and> (\<not> flushes (buffered_chunk_str st @ extract_chunk_str chunk_str) chunk_str
            \<longrightarrow> generate_chunks w downs [chunk] st
                  = Done (st\<lparr>buffered_chunk_str := buffered_chunk_str st @ extract_chunk_str chunk_str\<rparr>))
         \<and> map snd (posted (state_of (generate (stitch_world echo_text) five_tokens [U ''TTS''] no_metrics)))
             = [U ''Hi there.'', U '' How?'', []]
         \<and> last (emitted (state_of (generate (stitch_world echo_text) five_tokens [U ''TTS''] no_metrics)))
             = Text done_event"
  using stitch_one_chunk_posted[OF assms, of w st]
    stitch_one_chunk_flushed[OF assms, of st w res reply evs]
    stitch_one_chunk_kept[OF assms, of st w]
    five_tokens_echo
  by blast

theorem stitcher_flush_discipline_witness:
  "U ''data: b'' @ [39] @ U ''.'' @ [39, 10, 10] \<noteq> []
   \<and> [U ''TTS''] \<noteq> []
   \<and> utf8_decode (U ''data: b'' @ [39] @ U ''.'' @ [39, 10, 10])
       = Inr (U ''data: b'' @ [39] @ U ''.'' @ [39, 10, 10])
   \<and> posted (state_of (generate_chunks (stitch_world echo_text) [U ''TTS'']
                 [U ''data: b'' @ [39] @ U ''.'' @ [39, 10, 10]]
                 ((new_stitch no_metrics)\<lparr>buffered_chunk_str := U ''Hi there''\<rparr>)))
       = [(U ''TTS'', U ''Hi there.'')]
   \<and> emitted (state_of (generate_chunks (stitch_world echo_text) [U ''TTS'']
                 [U ''data: b'' @ [39] @ U ''.'' @ [39, 10, 10]]
                 ((new_stitch no_metrics)\<lparr>buffered_chunk_str := U ''Hi there''\<rparr>)))
       = [Text (U ''data: b'' @ [39] @ U ''Hi '' @ [39, 10, 10]),
          Text (U ''data: b'' @ [39] @ U ''there.'' @ [39, 10, 10])]"
proof -
  let ?chunk = "U ''data: b'' @ [39] @ U ''.'' @ [39, 10, 10]"
  let ?st = "(new_stitch no_metrics)\<lparr>buffered_chunk_str := U ''Hi there''\<rparr>"
  have a: "?chunk \<noteq> []" "[U ''TTS''] \<noteq> []" "utf8_decode ?chunk = Inr ?chunk"
    by (simp_all add: U_def)
  have fl: "flushes (buffered_chunk_str ?st @ extract_chunk_str ?chunk) ?chunk"
    and buf: "buffered_chunk_str ?st @ extract_chunk_str ?chunk = U ''Hi there.''"
    by (simp_all add: flushes_def stitch_defs example_defs Let_def)
  have po: "http_post_segment (stitch_world echo_text) (hd [U ''TTS'']) (U ''Hi there.'')
              = Inr [(U ''text'', VStr (U ''Hi there.''))]"
    by (simp add: stitch_world_def echo_text_def)
  have tx: "map_of [(U ''text'', VStr (U ''Hi there.''))] (U ''text'') = Some (VStr (U ''Hi there.''))"
    by simp
  have fr: "map frame (findall_tokens (U ''Hi there.''))
              = map Inr [U ''data: b'' @ [39] @ U ''Hi '' @ [39, 10, 10],
                         U ''data: b'' @ [39] @ U ''there.'' @ [39, 10, 10]]"
    by (simp add: stitch_defs U_def Let_def)
  have nl: "\<not> endswith ?chunk (U ''[DONE]'' @ [10, 10])"
    by (simp add: endswith_def U_def)
  from stitcher_flush_discipline[OF a, where w = "stitch_world echo_text" and st = ?st
      and res = "[(U ''text'', VStr (U ''Hi there.''))]" and reply = "U ''Hi there.''"
      and evs = "[U ''data: b'' @ [39] @ U ''Hi '' @ [39, 10, 10],
                  U ''data: b'' @ [39] @ U ''there.'' @ [39, 10, 10]]"]
  have "posted (state_of (generate_chunks (stitch_world echo_text) [U ''TTS''] [?chunk] ?st))
          = [(U ''TTS'', U ''Hi there.'')]"
    and "emitted (state_of (generate_chunks (stitch_world echo_text) [U ''TTS''] [?chunk] ?st))
          = [Text (U ''data: b'' @ [39] @ U ''Hi '' @ [39, 10, 10]),
             Text (U ''data: b'' @ [39] @ U ''there.'' @ [39, 10, 10])]"
    unfolding buf using fl[unfolded buf] po tx fr nl
    by (simp_all add: new_stitch_def)
  with a show ?thesis by blast
qed

section \<open>The pending gauge\<close>

text \<open>
  C8 on the code: the \<open>TTS\<close> service answers the first flushed segment with a JSON
  object that has no \<open>text\<close> key.  \<open>generate\<close> raises, nothing is emitted, and
  \<open>pending_update(False)\<close> is never called: the gauge keeps the increment of the
  request.
\<close>

theorem stitcher_missing_text_keeps_gauge:
  "raised (generate (stitch_world no_text) five_tokens [U ''TTS''] (pending_update True no_metrics))
     = Some OtherResponseNotSupported
   \<and> emitted (state_of (generate (stitch_world no_text) five_tokens [U ''TTS'']
                 (pending_update True no_metrics))) = []
   \<and> map snd (posted (state_of (generate (stitch_world no_text) five_tokens [U ''TTS'']
                 (pending_update True no_metrics)))) = [U ''Hi there.'']
   \<and> pending_calls (meters (state_of (generate (stitch_world no_text) five_tokens [U ''TTS'']
                 (pending_update True no_metrics)))) = [True]
   \<and> request_pending (meters (state_of (generate (stitch_world no_text) five_tokens [U ''TTS'']
                 (pending_update True no_metrics)))) = 1"
  by (simp add: stitch_defs example_defs Let_def)

lemma fake_stream_run:
  "map_option (\<lambda>mo. (pending_calls (fst mo), raised (snd mo),
                      runtime_graph (state_of (snd mo)),
                      result_dict (state_of (snd mo)) (U ''G'')))
     (schedule (guard_world (veto (U ''.*''))) guard_graph [] streaming_on [[0]]  no_metrics)
   = Some ([True], None, [(U ''G'', [])], Some (Streaming (FakeStream (VStr (U ''ok'')))))"
  by code_simp

text \<open>
  C4 on the code: the guardrail \<open>G\<close> black-lists both its downstream nodes in a
  streaming request.  \<open>schedule\<close> returns the synthesized stream without calling
  \<open>pending_update(False)\<close>, and reading that stream to its end does not call it
  either: the gauge stays incremented.
\<close>

theorem fake_stream_keeps_gauge:
  "map_option (\<lambda>mo. (pending_calls (fst mo), raised (snd mo),
                      result_dict (state_of (snd mo)) (U ''G'')))
     (schedule (guard_world (veto (U ''.*''))) guard_graph [] streaming_on [[0]] no_metrics)
     = Some ([True], None, Some (Streaming (FakeStream (VStr (U ''ok'')))))
   \<and> raised (run_stream (guard_world (veto (U ''.*''))) (FakeStream (VStr (U ''ok'')))
               (pending_update True no_metrics)) = None
   \<and> pending_calls (meters (state_of
         (run_stream (guard_world (veto (U ''.*''))) (FakeStream (VStr (U ''ok'')))
            (pending_update True no_metrics)))) = [True]
   \<and> request_pending (meters (state_of
         (run_stream (guard_world (veto (U ''.*''))) (FakeStream (VStr (U ''ok'')))
            (pending_update True no_metrics)))) = 1"
proof -
  have "map_option (\<lambda>mo. (pending_calls (fst mo), raised (snd mo),
                      result_dict (state_of (snd mo)) (U ''G'')))
     (schedule (guard_world (veto (U ''.*''))) guard_graph [] streaming_on [[0]] no_metrics)
     = Some ([True], None, Some (Streaming (FakeStream (VStr (U ''ok'')))))"
    using fake_stream_run
    by (cases "schedule (guard_world (veto (U ''.*''))) guard_graph [] streaming_on [[0]] no_metrics")
       auto
  then show ?thesis
    by (simp add: stitch_defs no_metrics_def)
qed

section \<open>The overlay of the parameters\<close>

lemma execute_heap:
  "fst (execute w lp g h n a)
     = (if is_llm_node w n then h(a := overlay (as_dict lp) (h a)) else h)"
  unfolding execute_def is_llm_node_def Let_def
  by (auto split: option.splits sum.splits reply.splits)

lemma py_eq_list_refl: "(\<And>x. x \<in> set xs \<Longrightarrow> py_eq x x) \<Longrightarrow> py_eq_list xs xs"
  by (induction xs) auto

lemma py_eq_refl: "py_eq v v"
  by (induction v) (auto intro: py_eq_list_refl)

lemma map_of_dict_set: "map_of (dict_set k v d) = (map_of d)(k \<mapsto> v)"
  by (induction d) (auto simp: fun_eq_iff)

lemma dict_get_dict_set: "dict_get (dict_set k v d) k' = (if k' = k then v else dict_get d k')"
  by (simp add: dict_get_def map_of_dict_set)

lemma overlay_other: "k \<notin> set (map fst fs) \<Longrightarrow> dict_get (overlay fs d) k = dict_get d k"
  by (induction fs arbitrary: d) (auto simp: dict_get_dict_set)

lemma overlay_sets:
  "distinct (map fst fs) \<Longrightarrow> list_all (\<lambda>kv. py_eq (dict_get (overlay fs d) (fst kv)) (snd kv)) fs"
proof (induction fs arbitrary: d)
  case Nil
  then show ?case by simp
next
  case (Cons f fs)
  obtain k v where f: "f = (k, v)" by (cases f)
  let ?d = "if \<not> py_eq (dict_get d k) v then dict_set k v d else d"
  have k: "k \<notin> set (map fst fs)" and dfs: "distinct (map fst fs)"
    using Cons.prems by (simp_all add: f)
  have "py_eq (dict_get ?d k) v" by (simp add: dict_get_dict_set py_eq_refl)
  then have "py_eq (dict_get (overlay fs ?d) k) v" using overlay_other[OF k] by simp
  moreover have "list_all (\<lambda>kv. py_eq (dict_get (overlay fs ?d) (fst kv)) (snd kv)) fs"
    using dfs by (rule Cons.IH)
  ultimately show ?case by (simp add: f)
qed

lemma overlay_fixed:
  "list_all (\<lambda>kv. py_eq (dict_get d (fst kv)) (snd kv)) fs \<Longrightarrow> overlay fs d = d"
  by (induction fs) auto

lemma overlay_idem: "distinct (map fst fs) \<Longrightarrow> overlay fs (overlay fs d) = overlay fs d"
  by (intro overlay_fixed overlay_sets)

lemma start_tasks_heap:
  assumes d: "distinct (map fst (as_dict lp))"
  shows "list_all (\<lambda>t. snd t = a) ts \<Longrightarrow>
     heap (start_tasks w lp ts s) a
       = (if list_ex (\<lambda>t. is_llm_node w (fst t)) ts then overlay (as_dict lp) (heap s a)
          else heap s a)"
proof (induction ts arbitrary: s)
  case Nil
  then show ?case by simp
next
  case (Cons t ts)
  obtain n where t: "t = (n, a)" using Cons.prems by (cases t) simp
  obtain h' out where e: "execute w lp (runtime_graph s) (heap s) n a = (h', out)"
    by (cases "execute w lp (runtime_graph s) (heap s) n a")
  have h': "h' = (if is_llm_node w n then (heap s)(a := overlay (as_dict lp) (heap s a)) else heap s)"
    using execute_heap[of w lp "runtime_graph s" "heap s" n a] e by simp
  define s1 where "s1 = s\<lparr>heap := h', running := running s @ [(n, out)]\<rparr>"
  have st: "start_tasks w lp (t # ts) s = start_tasks w lp ts s1"
    by (simp add: t e s1_def)
  have ih: "heap (start_tasks w lp ts s1) a
       = (if list_ex (\<lambda>t. is_llm_node w (fst t)) ts then overlay (as_dict lp) (heap s1 a)
          else heap s1 a)"
    using Cons.prems by (intro Cons.IH) simp
  have h1: "heap s1 a = (if is_llm_node w n then overlay (as_dict lp) (heap s a) else heap s a)"
    by (simp add: s1_def h')
  show ?case
    unfolding st ih h1 by (simp add: t overlay_idem[OF d])
qed

text \<open>
  C10: \<open>execute\<close> on an \<open>LLM\<close> or \<open>LVM\<close> node stores the overlay at the address it
  was given, and nowhere else.  The root tasks of \<open>schedule\<close> all hold address 0,
  the caller's \<open>initial_inputs\<close>.  So once the root tasks have started, one of them for
  an \<open>LLM\<close> or \<open>LVM\<close> node, the caller's mapping, which is the mapping of every
  root, is the overlaid one.
\<close>

theorem execute_overlays_in_place:
  "(is_llm_node w n \<longrightarrow> fst (execute w lp g h n a) = h(a := overlay (as_dict lp) (h a)))
   \<and> list_all (\<lambda>t. snd t = 0) (created (initial_state g initial_inputs))
   \<and> map fst (created (initial_state g initial_inputs)) = ind_nodes g
   \<and> heap (initial_state g initial_inputs) 0 = initial_inputs
   \<and> (distinct (map fst (as_dict lp)) \<and> list_ex (is_llm_node w) (ind_nodes g)
        \<longrightarrow> heap (start_created w lp (initial_state g initial_inputs)) 0
              = overlay (as_dict lp) initial_inputs)"
proof -
  have 1: "is_llm_node w n \<longrightarrow> fst (execute w lp g h n a) = h(a := overlay (as_dict lp) (h a))"
    by (simp add: execute_heap)
  have 2: "list_all (\<lambda>t. snd t = 0) (created (initial_state g initial_inputs))"
    "map fst (created (initial_state g initial_inputs)) = ind_nodes g"
    "heap (initial_state g initial_inputs) 0 = initial_inputs"
    by (simp_all add: initial_state_def list_all_iff comp_def)
  have 3: "distinct (map fst (as_dict lp)) \<and> list_ex (is_llm_node w) (ind_nodes g)
        \<longrightarrow> heap (start_created w lp (initial_state g initial_inputs)) 0
              = overlay (as_dict lp) initial_inputs"
  proof
    assume h: "distinct (map fst (as_dict lp)) \<and> list_ex (is_llm_node w) (ind_nodes g)"
    let ?s = "initial_state g initial_inputs"
    have ex: "list_ex (\<lambda>t. is_llm_node w (fst t)) (created ?s)"
      using h by (simp add: initial_state_def list_ex_iff)
    have al: "list_all (\<lambda>t. snd t = 0) (created ?s)" by (rule 2(1))
    have "heap (start_tasks w lp (created ?s) (?s\<lparr>created := []\<rparr>)) 0
            = overlay (as_dict lp) (heap (?s\<lparr>created := []\<rparr>) 0)"
      using start_tasks_heap[OF conjunct1[OF h] al, of w "?s\<lparr>created := []\<rparr>"] ex by simp
    then show "heap (start_created w lp ?s) 0 = overlay (as_dict lp) initial_inputs"
      by (simp add: start_created_def 2(3))
  qed
  from 1 2 3 show ?thesis by blast
qed

lemma two_roots_started:
  "heap (start_created (stitch_world echo_text) streaming_off
           (initial_state two_roots [(U ''text'', VStr (U ''hi''))])) 0
     = [(U ''text'', VStr (U ''hi'')), (U ''stream'', VBool False)]
   \<and> map snd (running (start_created (stitch_world echo_text) streaming_off
           (initial_state two_roots [(U ''text'', VStr (U ''hi''))])))
     = [Inr (Structured [(U ''text'', VStr (U ''hi'')), (U ''stream'', VBool False)], U ''LLM''),
        Inr (Structured [(U ''text'', VStr (U ''hi'')), (U ''stream'', VBool False)], U ''TTS'')]"
  by code_simp

theorem execute_overlays_in_place_witness:
  "is_llm_node (stitch_world echo_text) (U ''LLM'')
   \<and> distinct (map fst (as_dict streaming_off))
   \<and> list_ex (is_llm_node (stitch_world echo_text)) (ind_nodes two_roots)
   \<and> overlay (as_dict streaming_off) [(U ''text'', VStr (U ''hi''))]
       = [(U ''text'', VStr (U ''hi'')), (U ''stream'', VBool False)]
   \<and> heap (start_created (stitch_world echo_text) streaming_off
             (initial_state two_roots [(U ''text'', VStr (U ''hi''))])) 0
       = [(U ''text'', VStr (U ''hi'')), (U ''stream'', VBool False)]
   \<and> map snd (running (start_created (stitch_world echo_text) streaming_off
           (initial_state two_roots [(U ''text'', VStr (U ''hi''))])))
     = [Inr (Structured [(U ''text'', VStr (U ''hi'')), (U ''stream'', VBool False)], U ''LLM''),
        Inr (Structured [(U ''text'', VStr (U ''hi'')), (U ''stream'', VBool False)], U ''TTS'')]"
proof -
  have a: "is_llm_node (stitch_world echo_text) (U ''LLM'')"
    "distinct (map fst (as_dict streaming_off))"
    "list_ex (is_llm_node (stitch_world echo_text)) (ind_nodes two_roots)"
    by (simp_all add: is_llm_node_def stitch_world_def streaming_off_def two_roots_def
        ind_nodes_def predecessors_def U_def)
  have o: "overlay (as_dict streaming_off) [(U ''text'', VStr (U ''hi''))]
       = [(U ''text'', VStr (U ''hi'')), (U ''stream'', VBool False)]"
    by (simp add: streaming_off_def dict_get_def U_def)
  from execute_overlays_in_place[where w = "stitch_world echo_text" and lp = streaming_off
      and g = two_roots and initial_inputs = "[(U ''text'', VStr (U ''hi''))]"] a
  have "heap (start_created (stitch_world echo_text) streaming_off
             (initial_state two_roots [(U ''text'', VStr (U ''hi''))])) 0
       = overlay (as_dict streaming_off) [(U ''text'', VStr (U ''hi''))]"
    by blast
  with a o two_roots_started show ?thesis by simp
qed

end
